theory Spec2Isabelle
  imports Main "HOL-Library.Word"
begin

section \<open>Flash buffered write (subsys/storage/flash_buffered_write/fbw.c)\<close>

text \<open>
  The engine is embedded for the 32-bit targets of the repository (the SoC header under
  \<^verbatim>\<open>soc/arm/st_stm32/stm32g4\<close>): \<^verbatim>\<open>size_t\<close>, \<^verbatim>\<open>off_t\<close> and \<^verbatim>\<open>int\<close> are all 32 bits wide, so the
  conversions between them that the C code performs implicitly keep the bit pattern.
  Unsigned arithmetic wraps modulo \<open>2 ^ 32\<close>; an \<^verbatim>\<open>int\<close> is read as two's complement where
  the code compares it with \<^verbatim>\<open>< 0\<close>.
\<close>

subsection \<open>Machine types and error codes\<close>

type_synonym u8 = "8 word"
type_synonym size_t = "32 word"
type_synonym off_t = "32 word"
type_synonym c_int = "32 word"

text \<open>
  Modelled from the spec: the header \<^verbatim>\<open>errno.h\<close> is not among the sources. The engine returns
  \<open>-EFAULT\<close> where the specification says bad-argument and \<open>-ENOMEM\<close> where it says no-space;
  the values are those of Zephyr's minimal libc.
\<close>

definition EFAULT :: c_int where
  "EFAULT = 14"

definition ENOMEM :: c_int where
  "ENOMEM = 12"

subsection \<open>The flash device (drivers/flash.h), as far as the engine uses it\<close>

text \<open>
  Modelled from the spec: \<^verbatim>\<open>drivers/flash.h\<close> is not among the sources. A page-layout region is
  what the specification's page-layout enumeration yields, \<open>(pages_count, page_size)\<close>; the page
  information is what get-page-info-by-offset returns, \<open>(start_offset, size)\<close> and the page index.
  The field names are those \<^verbatim>\<open>fbw.c\<close> uses (\<^verbatim>\<open>size\<close> is \<open>size_pg\<close> here).
\<close>

record flash_pages_layout =
  pages_count :: size_t
  pages_size :: size_t

record flash_pages_info =
  start_offset :: off_t
  size_pg :: size_t
  index :: "32 word"

text \<open>
  Modelled from the spec: the driver is outside the engine and its code is not among the
  sources, so the device is a parameter. A device is the record of its operations over a world
  \<open>'w\<close> (flash contents, protection state, whatever else the driver and the hook can see);
  every operation returns the driver's status code. \<open>flash_read\<close> is handed the destination
  buffer and returns it as the driver left it. The page layout, the write block size and the
  page lookup are fixed per device.
\<close>

record 'w device =
  page_layout :: "flash_pages_layout list"
  write_block_size :: size_t
  flash_get_page_info_by_offs :: "off_t \<Rightarrow> c_int \<times> flash_pages_info"
  flash_erase :: "off_t \<Rightarrow> size_t \<Rightarrow> 'w \<Rightarrow> c_int \<times> 'w"
  flash_write :: "off_t \<Rightarrow> u8 list \<Rightarrow> size_t \<Rightarrow> 'w \<Rightarrow> c_int \<times> 'w"
  flash_read :: "off_t \<Rightarrow> u8 list \<Rightarrow> size_t \<Rightarrow> 'w \<Rightarrow> c_int \<times> u8 list \<times> 'w"
  flash_write_protection_set :: "bool \<Rightarrow> 'w \<Rightarrow> c_int \<times> 'w"

text \<open>
  Modelled from the spec: the verification hook \<^verbatim>\<open>fbw_callback_t\<close> of \<^verbatim>\<open>storage/fbw.h\<close> (not among
  the sources) takes the buffer, the length and the absolute offset and returns a status; it
  may read and change the world, as the test suite's hook reads its globals.
\<close>

type_synonym 'w fbw_callback_t = "u8 list \<Rightarrow> size_t \<Rightarrow> size_t \<Rightarrow> 'w \<Rightarrow> c_int \<times> 'w"

subsection \<open>The context (struct fbw_ctx)\<close>

text \<open>
  Modelled from the spec: \<^verbatim>\<open>storage/fbw.h\<close> is not among the sources. The fields are those that
  \<^verbatim>\<open>fbw.c\<close> reads and writes, which are the ones section 3 of the specification lists. \<open>buf\<close> is
  the content of the staging buffer the context points to.
\<close>

record 'w fbw_ctx =
  fdev :: "'w device"
  buf :: "u8 list"
  buf_len :: size_t
  bytes_written :: size_t
  buf_bytes :: size_t
  offset :: size_t
  available :: size_t
  callback :: "'w fbw_callback_t option"
  last_erased_page_start_offset :: off_t

subsection \<open>The environment: the world and the log of calls the engine issues\<close>

datatype event =
    Ev_protect bool
  | Ev_erase off_t size_t
  | Ev_write off_t size_t
  | Ev_read off_t size_t
  | Ev_hook size_t size_t

record 'w env =
  world :: 'w
  trace :: "event list"

definition call_protect :: "'w device \<Rightarrow> bool \<Rightarrow> 'w env \<Rightarrow> 'w env" where
  "call_protect d on e =
     \<lparr>world = snd (flash_write_protection_set d on (world e)),
      trace = trace e @ [Ev_protect on]\<rparr>"

definition call_erase :: "'w device \<Rightarrow> off_t \<Rightarrow> size_t \<Rightarrow> 'w env \<Rightarrow> c_int \<times> 'w env" where
  "call_erase d off sz e =
     (case flash_erase d off sz (world e) of
        (rc, w) \<Rightarrow> (rc, \<lparr>world = w, trace = trace e @ [Ev_erase off sz]\<rparr>))"

definition call_write :: "'w device \<Rightarrow> off_t \<Rightarrow> u8 list \<Rightarrow> size_t \<Rightarrow> 'w env \<Rightarrow> c_int \<times> 'w env" where
  "call_write d off b n e =
     (case flash_write d off b n (world e) of
        (rc, w) \<Rightarrow> (rc, \<lparr>world = w, trace = trace e @ [Ev_write off n]\<rparr>))"

definition call_read ::
  "'w device \<Rightarrow> off_t \<Rightarrow> u8 list \<Rightarrow> size_t \<Rightarrow> 'w env \<Rightarrow> c_int \<times> u8 list \<times> 'w env" where
  "call_read d off b n e =
     (case flash_read d off b n (world e) of
        (rc, b', w) \<Rightarrow> (rc, b', \<lparr>world = w, trace = trace e @ [Ev_read off n]\<rparr>))"

definition call_hook ::
  "'w fbw_callback_t \<Rightarrow> u8 list \<Rightarrow> size_t \<Rightarrow> size_t \<Rightarrow> 'w env \<Rightarrow> c_int \<times> 'w env" where
  "call_hook cb b n off e =
     (case cb b n off (world e) of
        (rc, w) \<Rightarrow> (rc, \<lparr>world = w, trace = trace e @ [Ev_hook n off]\<rparr>))"

subsection \<open>fbw_erase\<close>

definition fbw_erase :: "'w fbw_ctx \<Rightarrow> off_t \<Rightarrow> 'w env \<Rightarrow> c_int \<times> 'w fbw_ctx \<times> 'w env" where
  "fbw_erase ctx off e =
     (case flash_get_page_info_by_offs (fdev ctx) off of
        (rc, page) \<Rightarrow>
          if rc \<noteq> 0 then (rc, ctx, e)
          else if last_erased_page_start_offset ctx = start_offset page then (0, ctx, e)
          else
            (let ctx1 = ctx\<lparr>last_erased_page_start_offset := start_offset page\<rparr>;
                 e1 = call_protect (fdev ctx1) False e
             in case call_erase (fdev ctx1) (start_offset page) (size_pg page) e1 of
                  (rc, e2) \<Rightarrow> (rc, ctx1, call_protect (fdev ctx1) True e2)))"

subsection \<open>flash_sync: one commit\<close>

text \<open>
  \<open>erase_on\<close> is the compile-time option \<^verbatim>\<open>CONFIG_FBW_ERASE\<close>. The pre-erase is abandoned only on a
  negative status (\<^verbatim>\<open>rc < 0\<close>); the write and the read-back on any non-zero status. After the
  hook has run its status is only logged: the counters are updated in either case and the
  status is returned.
\<close>

definition flash_sync :: "bool \<Rightarrow> 'w fbw_ctx \<Rightarrow> 'w env \<Rightarrow> c_int \<times> 'w fbw_ctx \<times> 'w env" where
  "flash_sync erase_on ctx e =
     (let write_addr = offset ctx + bytes_written ctx in
      case (if erase_on then fbw_erase ctx (write_addr + buf_bytes ctx) e else (0, ctx, e)) of
        (rc0, ctx1, e1) \<Rightarrow>
          if erase_on \<and> rc0 <s 0 then (rc0, ctx1, e1)
          else
            (let e2 = call_protect (fdev ctx1) False e1 in
             case call_write (fdev ctx1) write_addr (buf ctx1) (buf_bytes ctx1) e2 of
               (rc1, e3) \<Rightarrow>
                 (let e4 = call_protect (fdev ctx1) True e3 in
                  if rc1 \<noteq> 0 then (rc1, ctx1, e4)
                  else
                    (case callback ctx1 of
                       None \<Rightarrow>
                         (rc1,
                          ctx1\<lparr>bytes_written := bytes_written ctx1 + buf_bytes ctx1,
                               buf_bytes := 0\<rparr>,
                          e4)
                     | Some cb \<Rightarrow>
                         (case call_read (fdev ctx1) write_addr (buf ctx1) (buf_bytes ctx1) e4 of
                            (rc2, b, e5) \<Rightarrow>
                              (let ctx2 = ctx1\<lparr>buf := b\<rparr> in
                               if rc2 \<noteq> 0 then (rc2, ctx2, e5)
                               else
                                 (case call_hook cb (buf ctx2) (buf_bytes ctx2) write_addr e5 of
                                    (rc3, e6) \<Rightarrow>
                                      (rc3,
                                       ctx2\<lparr>bytes_written := bytes_written ctx2 + buf_bytes ctx2,
                                            buf_bytes := 0\<rparr>,
                                       e6))))))))"

subsection \<open>fbw_write\<close>

text \<open>
  \<^verbatim>\<open>memcpy(dst + doff, src + soff, n)\<close> on byte lists. The destination keeps its length as long
  as \<open>doff + n\<close> stays inside it, which the engine guarantees by \<open>buf_bytes \<le> buf_len\<close>; the
  source must hold \<open>soff + n\<close> bytes, which is the caller's obligation in C.
\<close>

definition memcpy :: "u8 list \<Rightarrow> nat \<Rightarrow> u8 list \<Rightarrow> nat \<Rightarrow> nat \<Rightarrow> u8 list" where
  "memcpy dst doff src soff n = take doff dst @ take n (drop soff src) @ drop (doff + n) dst"

text \<open>
  The commit loop. \<^verbatim>\<open>processed\<close> and \<^verbatim>\<open>buf_empty_bytes\<close> are \<^verbatim>\<open>int\<close> in the source and are
  converted to \<^verbatim>\<open>size_t\<close> in every expression they occur in, so they are words here. The loop
  has no bound of its own (with \<open>buf_len = 0\<close> every iteration commits zero bytes and the
  condition stays true), hence the option: \<open>None\<close> is a call that never returns. The result is
  the status, the context, \<^verbatim>\<open>processed\<close> and the environment; a non-zero status is the early
  \<^verbatim>\<open>return rc\<close> inside the loop.
\<close>

partial_function (option) fbw_write_loop ::
  "bool \<Rightarrow> u8 list \<Rightarrow> size_t \<Rightarrow> 'w fbw_ctx \<Rightarrow> c_int \<Rightarrow> 'w env
    \<Rightarrow> (c_int \<times> 'w fbw_ctx \<times> c_int \<times> 'w env) option" where
  "fbw_write_loop erase_on data len ctx processed e =
     (let buf_empty_bytes = buf_len ctx - buf_bytes ctx in
      if len - processed \<ge> buf_empty_bytes then
        (let ctx1 = ctx\<lparr>buf := memcpy (buf ctx) (unat (buf_bytes ctx)) data (unat processed)
                                  (unat buf_empty_bytes),
                        buf_bytes := buf_len ctx\<rparr>
         in case flash_sync erase_on ctx1 e of
              (rc, ctx2, e2) \<Rightarrow>
                if rc \<noteq> 0 then Some (rc, ctx2, processed, e2)
                else fbw_write_loop erase_on data len ctx2 (processed + buf_empty_bytes) e2)
      else Some (0, ctx, processed, e))"

declare fbw_write_loop.simps [code]

text \<open>
  A null \<^verbatim>\<open>ctx\<close> or \<^verbatim>\<open>data\<close> pointer is \<open>None\<close>. The capacity check is the source's expression, in
  \<^verbatim>\<open>size_t\<close> arithmetic.
\<close>

definition fbw_write ::
  "bool \<Rightarrow> 'w fbw_ctx option \<Rightarrow> u8 list option \<Rightarrow> size_t \<Rightarrow> bool \<Rightarrow> 'w env
    \<Rightarrow> (c_int \<times> 'w fbw_ctx option \<times> 'w env) option" where
  "fbw_write erase_on ctxp datap len flush e =
     (case (ctxp, datap) of
        (Some ctx, Some data) \<Rightarrow>
          if bytes_written ctx + buf_bytes ctx + len > available ctx then Some (- ENOMEM, ctxp, e)
          else
            (case fbw_write_loop erase_on data len ctx 0 e of
               None \<Rightarrow> None
             | Some (rc, ctx1, processed, e1) \<Rightarrow>
                 if rc \<noteq> 0 then Some (rc, Some ctx1, e1)
                 else
                   (let ctx2 =
                          (if processed < len then
                             ctx1\<lparr>buf := memcpy (buf ctx1) (unat (buf_bytes ctx1)) data (unat processed)
                                           (unat (len - processed)),
                                  buf_bytes := buf_bytes ctx1 + (len - processed)\<rparr>
                           else ctx1)
                    in if flush \<and> buf_bytes ctx2 > 0 then
                         (case flash_sync erase_on ctx2 e1 of
                            (rc, ctx3, e3) \<Rightarrow> Some (rc, Some ctx3, e3))
                       else Some (0, Some ctx2, e1)))
      | _ \<Rightarrow> Some (- EFAULT, ctxp, e))"

definition fbw_bytes_written :: "'w fbw_ctx \<Rightarrow> size_t" where
  "fbw_bytes_written ctx = bytes_written ctx"

subsection \<open>fbw_init\<close>

text \<open>
  The loop over the page layout: the running total, or \<open>None\<close> at the first region whose
  pages are smaller than the buffer (the early \<^verbatim>\<open>return -EFAULT\<close>).
\<close>

fun layout_scan :: "size_t \<Rightarrow> size_t \<Rightarrow> flash_pages_layout list \<Rightarrow> size_t option" where
  "layout_scan buf_len_arg total_size [] = Some total_size"
| "layout_scan buf_len_arg total_size (layout # rest) =
     (let total_size' = total_size + pages_count layout * pages_size layout in
      if buf_len_arg > pages_size layout then None
      else layout_scan buf_len_arg total_size' rest)"

text \<open>
  Null pointers are \<open>None\<close>. The result is the status and the context as the call leaves it;
  the outer \<open>None\<close> is the division by zero of \<^verbatim>\<open>offset % api->write_block_size\<close> on a device
  that reports a write block size of zero, where the C code has no defined result. The
  marker is written only when \<^verbatim>\<open>CONFIG_FBW_ERASE\<close> is set.
\<close>

definition fbw_init ::
  "bool \<Rightarrow> 'w fbw_ctx option \<Rightarrow> 'w device option \<Rightarrow> u8 list option \<Rightarrow> size_t \<Rightarrow> size_t \<Rightarrow> size_t
    \<Rightarrow> 'w fbw_callback_t option \<Rightarrow> (c_int \<times> 'w fbw_ctx option) option" where
  "fbw_init erase_on ctxp fdevp bufp buf_len_arg offset_arg size_arg cb =
     (case (ctxp, fdevp, bufp) of
        (Some ctx, Some d, Some b) \<Rightarrow>
          (case layout_scan buf_len_arg 0 (page_layout d) of
             None \<Rightarrow> Some (- EFAULT, ctxp)
           | Some total_size \<Rightarrow>
               if offset_arg + size_arg > total_size then Some (- EFAULT, ctxp)
               else if write_block_size d = 0 then None
               else if offset_arg mod write_block_size d \<noteq> 0 then Some (- EFAULT, ctxp)
               else
                 Some (0,
                   Some (ctx\<lparr>fdev := d, buf := b, buf_len := buf_len_arg, bytes_written := 0,
                             buf_bytes := 0, offset := offset_arg,
                             available := (if size_arg = 0 then total_size - offset_arg else size_arg),
                             callback := cb,
                             last_erased_page_start_offset :=
                               (if erase_on then - 1 else last_erased_page_start_offset ctx)\<rparr>)))
      | _ \<Rightarrow> Some (- EFAULT, ctxp))"

subsection \<open>Reading the log\<close>

fun erase_calls :: "event list \<Rightarrow> (off_t \<times> size_t) list" where
  "erase_calls [] = []"
| "erase_calls (Ev_erase off sz # evs) = (off, sz) # erase_calls evs"
| "erase_calls (_ # evs) = erase_calls evs"

fun write_calls :: "event list \<Rightarrow> (off_t \<times> size_t) list" where
  "write_calls [] = []"
| "write_calls (Ev_write off n # evs) = (off, n) # write_calls evs"
| "write_calls (_ # evs) = write_calls evs"

text \<open>The hook's arguments, as (length, offset), in call order.\<close>

fun hook_calls :: "event list \<Rightarrow> (size_t \<times> size_t) list" where
  "hook_calls [] = []"
| "hook_calls (Ev_hook n off # evs) = (n, off) # hook_calls evs"
| "hook_calls (_ # evs) = hook_calls evs"

text \<open>Two consecutive calls of \<open>fbw_erase\<close> on the same context.\<close>

definition fbw_erase_twice ::
  "'w fbw_ctx \<Rightarrow> off_t \<Rightarrow> off_t \<Rightarrow> 'w env \<Rightarrow> (c_int \<times> c_int) \<times> 'w fbw_ctx \<times> 'w env" where
  "fbw_erase_twice ctx off1 off2 e =
     (case fbw_erase ctx off1 e of
        (rc1, ctx1, e1) \<Rightarrow>
          (case fbw_erase ctx1 off2 e1 of
             (rc2, ctx2, e2) \<Rightarrow> ((rc1, rc2), ctx2, e2)))"

text \<open>Invariant 1 of the context, in exact arithmetic.\<close>

definition within_available :: "'w fbw_ctx \<Rightarrow> bool" where
  "within_available ctx \<longleftrightarrow> unat (bytes_written ctx) + unat (buf_bytes ctx) \<le> unat (available ctx)"

text \<open>
  The device size as the specification words it: the sum over all regions of
  \<open>pages_count \<times> page_size\<close> (in \<^verbatim>\<open>size_t\<close>, as the source accumulates it).
\<close>

definition total_device_size :: "'w device \<Rightarrow> size_t" where
  "total_device_size d = sum_list (map (\<lambda>l. pages_count l * pages_size l) (page_layout d))"

subsection \<open>A simulated flash and the test suite's hook (tests/.../src/main.c)\<close>

text \<open>
  Modelled from the spec: the flash driver the tests run on is not among the sources. This is
  a device as the specification's scenarios set it up: uniform pages of 4096 bytes, write
  block size 1, erased bytes \<open>0xFF\<close>; \<open>npages\<close> pages in all. Every operation returns zero for
  success and a negative code for failure: it can be made to report a failure status, and
  accesses beyond the end of the device report \<open>-EINVAL\<close>. The general theorems below hold for
  every device; this one serves to run the engine on concrete inputs.
\<close>

record sim_world =
  flash_mem :: "nat \<Rightarrow> u8"
  write_protect :: bool
  erase_status :: c_int
  write_status :: c_int
  read_status :: c_int
  cb_ret :: c_int

definition EINVAL :: c_int where
  "EINVAL = 22"

definition EIO :: c_int where
  "EIO = 5"

definition SIM_PAGE_SIZE :: size_t where
  "SIM_PAGE_SIZE = 4096"

definition sim_store :: "(nat \<Rightarrow> u8) \<Rightarrow> nat \<Rightarrow> u8 list \<Rightarrow> nat \<Rightarrow> u8" where
  "sim_store m off bs = (\<lambda>a. if off \<le> a \<and> a < off + length bs then bs ! (a - off) else m a)"

definition sim_load :: "(nat \<Rightarrow> u8) \<Rightarrow> nat \<Rightarrow> nat \<Rightarrow> u8 list" where
  "sim_load m off n = map (\<lambda>i. m (off + i)) [0..<n]"

definition sim_page_info :: "size_t \<Rightarrow> off_t \<Rightarrow> c_int \<times> flash_pages_info" where
  "sim_page_info npages off =
     (if off < npages * SIM_PAGE_SIZE
      then (0, \<lparr>start_offset = off - off mod SIM_PAGE_SIZE, size_pg = SIM_PAGE_SIZE,
                index = off div SIM_PAGE_SIZE\<rparr>)
      else (- EINVAL, \<lparr>start_offset = 0, size_pg = 0, index = 0\<rparr>))"

definition sim_erase :: "size_t \<Rightarrow> off_t \<Rightarrow> size_t \<Rightarrow> sim_world \<Rightarrow> c_int \<times> sim_world" where
  "sim_erase npages off sz w =
     (if erase_status w \<noteq> 0 then (erase_status w, w)
      else if unat off + unat sz > unat (npages * SIM_PAGE_SIZE) then (- EINVAL, w)
      else (0, w\<lparr>flash_mem := sim_store (flash_mem w) (unat off) (replicate (unat sz) 255)\<rparr>))"

definition sim_write :: "size_t \<Rightarrow> off_t \<Rightarrow> u8 list \<Rightarrow> size_t \<Rightarrow> sim_world \<Rightarrow> c_int \<times> sim_world" where
  "sim_write npages off b n w =
     (if write_status w \<noteq> 0 then (write_status w, w)
      else if unat off + unat n > unat (npages * SIM_PAGE_SIZE) then (- EINVAL, w)
      else (0, w\<lparr>flash_mem := sim_store (flash_mem w) (unat off) (take (unat n) b)\<rparr>))"

definition sim_read ::
  "size_t \<Rightarrow> off_t \<Rightarrow> u8 list \<Rightarrow> size_t \<Rightarrow> sim_world \<Rightarrow> c_int \<times> u8 list \<times> sim_world" where
  "sim_read npages off b n w =
     (if read_status w \<noteq> 0 then (read_status w, b, w)
      else if unat off + unat n > unat (npages * SIM_PAGE_SIZE) then (- EINVAL, b, w)
      else (0, sim_load (flash_mem w) (unat off) (unat n) @ drop (unat n) b, w))"

definition sim_protect :: "bool \<Rightarrow> sim_world \<Rightarrow> c_int \<times> sim_world" where
  "sim_protect on w = (0, w\<lparr>write_protect := on\<rparr>)"

definition sim_flash :: "size_t \<Rightarrow> sim_world device" where
  "sim_flash npages =
     \<lparr>page_layout = [\<lparr>pages_count = npages, pages_size = SIM_PAGE_SIZE\<rparr>],
      write_block_size = 1,
      flash_get_page_info_by_offs = sim_page_info npages,
      flash_erase = sim_erase npages,
      flash_write = sim_write npages,
      flash_read = sim_read npages,
      flash_write_protection_set = sim_protect\<rparr>"

text \<open>The hook of the test suite returns the global \<^verbatim>\<open>cb_ret\<close>.\<close>

definition fbw_callback :: "sim_world fbw_callback_t" where
  "fbw_callback b len off w = (cb_ret w, w)"

text \<open>The test suite's constants and its freshly erased, working device.\<close>

definition BUF_LEN :: size_t where
  "BUF_LEN = 512"

definition FLASH_BASE :: size_t where
  "FLASH_BASE = 65536"

definition erased_world :: sim_world where
  "erased_world =
     \<lparr>flash_mem = (\<lambda>a. 255), write_protect = True, erase_status = 0, write_status = 0,
      read_status = 0, cb_ret = 0\<rparr>"

definition env0 :: "sim_world env" where
  "env0 = \<lparr>world = erased_world, trace = []\<rparr>"

text \<open>
  The context as \<open>fbw_init\<close> leaves it on \<open>sim_flash npages\<close> for a stream of \<open>avail\<close> bytes at
  \<open>FLASH_BASE\<close> with the test suite's buffer, and the same context with some bytes staged or
  committed.
\<close>

definition test_ctx :: "size_t \<Rightarrow> size_t \<Rightarrow> sim_world fbw_callback_t option \<Rightarrow> sim_world fbw_ctx" where
  "test_ctx npages avail cb =
     \<lparr>fdev = sim_flash npages, buf = replicate 512 0, buf_len = BUF_LEN, bytes_written = 0,
      buf_bytes = 0, offset = FLASH_BASE, available = avail, callback = cb,
      last_erased_page_start_offset = - 1\<rparr>"

definition write_buf :: "nat \<Rightarrow> u8 list" where
  "write_buf n = replicate n 170"

definition env_erase_broken :: "sim_world env" where
  "env_erase_broken = \<lparr>world = erased_world\<lparr>erase_status := - EIO\<rparr>, trace = []\<rparr>"

text \<open>
  The state of the test \<^verbatim>\<open>test_fbw_erase\<close> after its \<open>fbw_write\<close> of one buffer with
  \<^verbatim>\<open>CONFIG_FBW_ERASE\<close> set: the commit has erased the page at \<open>FLASH_BASE\<close> and written the buffer.
\<close>

definition s6_ctx :: "sim_world fbw_ctx" where
  "s6_ctx =
     (test_ctx 256 983040 None)
       \<lparr>buf := memcpy (replicate 512 0) 0 (write_buf 512) 0 512, buf_bytes := 0,
        bytes_written := 512, last_erased_page_start_offset := 65536\<rparr>"

definition s6_env :: "sim_world env" where
  "s6_env =
     \<lparr>world = erased_world\<lparr>flash_mem :=
        sim_store (sim_store (\<lambda>a. 255) 65536 (replicate 4096 255)) 65536
          (take 512 (memcpy (replicate 512 0) 0 (write_buf 512) 0 512))\<rparr>,
      trace = [Ev_protect False, Ev_erase 65536 4096, Ev_protect True,
               Ev_protect False, Ev_write 65536 512, Ev_protect True]\<rparr>"

text \<open>
  \<open>k\<close> back-to-back commits of \<open>blen\<close> bytes starting at \<open>start\<close>, as (offset, length) pairs,
  and the commits the specification expects of a write of \<open>len\<close> bytes: one full buffer for
  every \<open>buf_len\<close> bytes of staged plus new data, then the remainder if the call flushes.
\<close>

definition full_commits :: "size_t \<Rightarrow> size_t \<Rightarrow> nat \<Rightarrow> (size_t \<times> size_t) list" where
  "full_commits start blen k = map (\<lambda>i. (start + of_nat i * blen, blen)) [0..<k]"

definition expected_commits :: "'w fbw_ctx \<Rightarrow> size_t \<Rightarrow> bool \<Rightarrow> (size_t \<times> size_t) list" where
  "expected_commits ctx len flush =
     (let q = unat (buf_bytes ctx) + unat len;
          k = q div unat (buf_len ctx);
          r = q mod unat (buf_len ctx);
          start = offset ctx + bytes_written ctx
      in full_commits start (buf_len ctx) k @
         (if flush \<and> r \<noteq> 0 then [(start + of_nat k * buf_len ctx, of_nat r)] else []))"

text \<open>
  The step of \<open>fbw_write\<close> after its loop, named for the proofs: the rest of the data goes
  into the buffer.
\<close>

definition stage_rest :: "'w fbw_ctx \<Rightarrow> u8 list \<Rightarrow> size_t \<Rightarrow> c_int \<Rightarrow> 'w fbw_ctx" where
  "stage_rest ctx1 data len processed =
     (if processed < len then
        ctx1\<lparr>buf := memcpy (buf ctx1) (unat (buf_bytes ctx1)) data (unat processed)
                        (unat (len - processed)),
             buf_bytes := buf_bytes ctx1 + (len - processed)\<rparr>
      else ctx1)"

text \<open>
  What a caller can observe of a call: the status, the counters \<open>bytes_written\<close> and
  \<open>buf_bytes\<close> with \<open>available\<close>, and the flash writes and hook calls in the log.
\<close>

definition counters :: "'w fbw_ctx \<Rightarrow> size_t \<times> size_t \<times> size_t" where
  "counters ctx = (bytes_written ctx, buf_bytes ctx, available ctx)"

definition outcome ::
  "(c_int \<times> 'w fbw_ctx option \<times> 'w env) option
    \<Rightarrow> (c_int \<times> (size_t \<times> size_t \<times> size_t) option
         \<times> (size_t \<times> size_t) list \<times> (size_t \<times> size_t) list) option" where
  "outcome r =
     map_option
       (\<lambda>(rc, ctxp, e). (rc, map_option counters ctxp, write_calls (trace e), hook_calls (trace e)))
       r"

definition sync_outcome ::
  "c_int \<times> 'w fbw_ctx \<times> 'w env
    \<Rightarrow> c_int \<times> (size_t \<times> size_t \<times> size_t) \<times> (size_t \<times> size_t) list \<times> (size_t \<times> size_t) list" where
  "sync_outcome r =
     (case r of (rc, ctx, e) \<Rightarrow> (rc, counters ctx, write_calls (trace e), hook_calls (trace e)))"

text \<open>The test \<^verbatim>\<open>test_fbw_write_callback\<close> at its last step: the hook is set to return \<open>-EFAULT\<close>.\<close>

definition env_hook_fails :: "sim_world env" where
  "env_hook_fails = \<lparr>world = erased_world\<lparr>cb_ret := - EFAULT\<rparr>, trace = []\<rparr>"

text \<open>The test context with \<open>n\<close> bytes of the pattern staged by a first write.\<close>

definition staged_ctx ::
  "size_t \<Rightarrow> size_t \<Rightarrow> sim_world fbw_callback_t option \<Rightarrow> nat \<Rightarrow> sim_world fbw_ctx" where
  "staged_ctx npages avail cb n =
     (test_ctx npages avail cb)
       \<lparr>buf := memcpy (replicate 512 0) 0 (write_buf n) 0 n, buf_bytes := of_nat n\<rparr>"

text \<open>Whether invariant 1 holds of the context a call hands back.\<close>

definition invariant_after :: "(c_int \<times> 'w fbw_ctx option \<times> 'w env) option \<Rightarrow> bool option" where
  "invariant_after r =
     (case r of Some (rc, Some ctx, e) \<Rightarrow> Some (within_available ctx) | _ \<Rightarrow> None)"

section \<open>Properties\<close>

subsection \<open>The log\<close>

lemma erase_calls_append [simp]: "erase_calls (xs @ ys) = erase_calls xs @ erase_calls ys"
  by (induction xs rule: erase_calls.induct) auto

lemma write_calls_append [simp]: "write_calls (xs @ ys) = write_calls xs @ write_calls ys"
  by (induction xs rule: write_calls.induct) auto

lemma hook_calls_append [simp]: "hook_calls (xs @ ys) = hook_calls xs @ hook_calls ys"
  by (induction xs rule: hook_calls.induct) auto

lemma trace_call_protect [simp]: "trace (call_protect d on e) = trace e @ [Ev_protect on]"
  by (simp add: call_protect_def)

lemma call_erase_trace: "call_erase d off sz e = (rc, e') \<Longrightarrow> trace e' = trace e @ [Ev_erase off sz]"
  by (auto simp: call_erase_def split: prod.splits)

lemma call_write_trace: "call_write d off b n e = (rc, e') \<Longrightarrow> trace e' = trace e @ [Ev_write off n]"
  by (auto simp: call_write_def split: prod.splits)

lemma call_read_trace:
  "call_read d off b n e = (rc, b', e') \<Longrightarrow> trace e' = trace e @ [Ev_read off n]"
  by (auto simp: call_read_def split: prod.splits)

lemma call_hook_trace:
  "call_hook cb b n off e = (rc, e') \<Longrightarrow> trace e' = trace e @ [Ev_hook n off]"
  by (auto simp: call_hook_def split: prod.splits)

lemmas sim_defs = sim_flash_def sim_page_info_def sim_erase_def sim_write_def sim_read_def
  sim_protect_def SIM_PAGE_SIZE_def test_ctx_def BUF_LEN_def FLASH_BASE_def erased_world_def
  env0_def EINVAL_def EIO_def EFAULT_def ENOMEM_def fbw_callback_def

lemmas call_defs = call_protect_def call_erase_def call_write_def call_read_def call_hook_def

subsection \<open>fbw_erase\<close>

text \<open>The three ways a call of \<open>fbw_erase\<close> can go.\<close>

lemma fbw_erase_cases:
  assumes "fbw_erase ctx off e = (rc, ctx', e')"
  obtains
    (lookup_failed) page where "flash_get_page_info_by_offs (fdev ctx) off = (rc, page)" "rc \<noteq> 0"
      "ctx' = ctx" "e' = e"
  | (same_page) page where "flash_get_page_info_by_offs (fdev ctx) off = (0, page)"
      "last_erased_page_start_offset ctx = start_offset page" "rc = 0" "ctx' = ctx" "e' = e"
  | (erased) page where "flash_get_page_info_by_offs (fdev ctx) off = (0, page)"
      "last_erased_page_start_offset ctx \<noteq> start_offset page"
      "ctx' = ctx\<lparr>last_erased_page_start_offset := start_offset page\<rparr>"
      "trace e' =
         trace e @ [Ev_protect False, Ev_erase (start_offset page) (size_pg page), Ev_protect True]"
  using assms
  by (auto simp: fbw_erase_def Let_def split: prod.splits if_splits dest!: call_erase_trace)

lemma fbw_erase_frame:
  assumes "fbw_erase ctx off e = (rc, ctx', e')"
  shows "ctx' = ctx\<lparr>last_erased_page_start_offset := last_erased_page_start_offset ctx'\<rparr>"
    and "write_calls (trace e') = write_calls (trace e)"
    and "hook_calls (trace e') = hook_calls (trace e)"
  using assms by (auto elim!: fbw_erase_cases)

text \<open>
  C10. \<open>fbw_erase\<close> stores the resolved page start in \<open>last_erased_page_start_offset\<close> before it
  calls the driver. So when the page lookup succeeds and the call still returns a non-zero
  status (the driver's erase failed), the erase was issued once, the marker holds the page
  start, and the next \<open>fbw_erase\<close> for any offset that resolves to the same page start returns
  0 and leaves the context and the environment (the log included) as they are: the failed
  page is not erased again. The same holds of every later call for that page, in whatever
  state, as long as the marker has not been moved by an erase of another page.
\<close>

theorem fbw_erase_failed_page_not_retried:
  assumes "flash_get_page_info_by_offs (fdev ctx) off = (0, page)"
    and "fbw_erase ctx off e = (rc, ctx1, e1)"
    and "rc \<noteq> 0"
    and "flash_get_page_info_by_offs (fdev ctx) off' = (0, page')"
    and "start_offset page' = start_offset page"
  shows "last_erased_page_start_offset ctx1 = start_offset page
       \<and> erase_calls (trace e1) = erase_calls (trace e) @ [(start_offset page, size_pg page)]
       \<and> fbw_erase ctx1 off' e1 = (0, ctx1, e1)
       \<and> (\<forall>ctx2 e2. fdev ctx2 = fdev ctx
              \<and> last_erased_page_start_offset ctx2 = last_erased_page_start_offset ctx1 \<longrightarrow>
            fbw_erase ctx2 off' e2 = (0, ctx2, e2))"
proof -
  from assms(2) show ?thesis
  proof (cases rule: fbw_erase_cases)
    case (lookup_failed p)
    with assms show ?thesis by simp
  next
    case (same_page p)
    with assms show ?thesis by simp
  next
    case (erased p)
    with assms have p: "p = page" by simp
    from erased p assms(4,5) show ?thesis
      by (simp add: fbw_erase_def)
  qed
qed

theorem fbw_erase_failed_page_not_retried_witness:
  "flash_get_page_info_by_offs (fdev (test_ctx 256 983040 None)) FLASH_BASE
     = (0, \<lparr>start_offset = 65536, size_pg = 4096, index = 16\<rparr>)
   \<and> fbw_erase (test_ctx 256 983040 None) FLASH_BASE env_erase_broken
     = (- EIO, (test_ctx 256 983040 None)\<lparr>last_erased_page_start_offset := 65536\<rparr>,
        \<lparr>world = erased_world\<lparr>erase_status := - EIO\<rparr>,
         trace = [Ev_protect False, Ev_erase 65536 4096, Ev_protect True]\<rparr>)
   \<and> - EIO \<noteq> (0 :: c_int)
   \<and> flash_get_page_info_by_offs (fdev (test_ctx 256 983040 None)) (FLASH_BASE + 100)
     = (0, \<lparr>start_offset = 65536, size_pg = 4096, index = 16\<rparr>)
   \<and> fbw_erase ((test_ctx 256 983040 None)\<lparr>last_erased_page_start_offset := 65536\<rparr>)
        (FLASH_BASE + 100)
        \<lparr>world = erased_world\<lparr>erase_status := - EIO\<rparr>,
         trace = [Ev_protect False, Ev_erase 65536 4096, Ev_protect True]\<rparr>
     = (0, (test_ctx 256 983040 None)\<lparr>last_erased_page_start_offset := 65536\<rparr>,
        \<lparr>world = erased_world\<lparr>erase_status := - EIO\<rparr>,
         trace = [Ev_protect False, Ev_erase 65536 4096, Ev_protect True]\<rparr>)"
proof -
  have h1: "flash_get_page_info_by_offs (fdev (test_ctx 256 983040 None)) FLASH_BASE
     = (0, \<lparr>start_offset = 65536, size_pg = 4096, index = 16\<rparr>)"
    by (simp add: sim_defs)
  have h2: "fbw_erase (test_ctx 256 983040 None) FLASH_BASE env_erase_broken
     = (- EIO, (test_ctx 256 983040 None)\<lparr>last_erased_page_start_offset := 65536\<rparr>,
        \<lparr>world = erased_world\<lparr>erase_status := - EIO\<rparr>,
         trace = [Ev_protect False, Ev_erase 65536 4096, Ev_protect True]\<rparr>)"
    by (simp add: fbw_erase_def call_defs sim_defs env_erase_broken_def)
  have h3: "- EIO \<noteq> (0 :: c_int)"
    by (simp add: EIO_def)
  have h4: "flash_get_page_info_by_offs (fdev (test_ctx 256 983040 None)) (FLASH_BASE + 100)
     = (0, \<lparr>start_offset = 65536, size_pg = 4096, index = 16\<rparr>)"
    by (simp add: sim_defs)
  from fbw_erase_failed_page_not_retried [OF h1 h2 h3 h4] h1 h2 h3 h4 show ?thesis
    by simp
qed

text \<open>The test's write of one buffer, evaluated.\<close>

lemma s6_write:
  "fbw_write True (Some (test_ctx 256 983040 None)) (Some (write_buf 512)) BUF_LEN False env0
    = Some (0, Some s6_ctx, s6_env)"
  apply (simp add: fbw_write_def sim_defs)
  apply (subst fbw_write_loop.simps)
  apply (simp add: flash_sync_def fbw_erase_def call_defs sim_defs Let_def)
  apply (subst fbw_write_loop.simps)
  apply (simp add: flash_sync_def fbw_erase_def call_defs sim_defs Let_def s6_ctx_def s6_env_def)
  done

text \<open>
  C7 as stated fails: after the write of one buffer the marker already holds the start of
  the page at \<open>FLASH_BASE\<close>, and two consecutive calls of \<open>fbw_erase\<close> for that page issue no
  erase at all.
\<close>

theorem fbw_erase_twice_counterexample:
  "fbw_write True (Some (test_ctx 256 983040 None)) (Some (write_buf 512)) BUF_LEN False env0
     = Some (0, Some s6_ctx, s6_env)
   \<and> flash_get_page_info_by_offs (fdev s6_ctx) FLASH_BASE
     = (0, \<lparr>start_offset = 65536, size_pg = 4096, index = 16\<rparr>)
   \<and> fbw_erase_twice s6_ctx FLASH_BASE FLASH_BASE s6_env = ((0, 0), s6_ctx, s6_env)
   \<and> length (erase_calls (trace (snd (snd (fbw_erase_twice s6_ctx FLASH_BASE FLASH_BASE s6_env)))))
       \<noteq> length (erase_calls (trace s6_env)) + 1"
proof -
  have a: "flash_get_page_info_by_offs (fdev s6_ctx) FLASH_BASE
     = (0, \<lparr>start_offset = 65536, size_pg = 4096, index = 16\<rparr>)"
    by (simp add: s6_ctx_def sim_defs)
  have b: "fbw_erase s6_ctx FLASH_BASE s6_env = (0, s6_ctx, s6_env)"
    by (simp add: fbw_erase_def a) (simp add: s6_ctx_def)
  have c: "fbw_erase_twice s6_ctx FLASH_BASE FLASH_BASE s6_env = ((0, 0), s6_ctx, s6_env)"
    by (simp add: fbw_erase_twice_def b)
  from s6_write a c show ?thesis by simp
qed

text \<open>
  C7, amended. For two consecutive calls of \<open>fbw_erase\<close> whose offsets resolve to pages with
  the same start: the second call returns 0 and changes neither the context nor the
  environment, so the state after both calls is the state after the first; and the two
  calls together issue one erase (of that page) when the marker differed from the page
  start before the first call, and none when it was already equal.
\<close>

theorem fbw_erase_twice_same_page:
  assumes "flash_get_page_info_by_offs (fdev ctx) off1 = (0, page1)"
    and "flash_get_page_info_by_offs (fdev ctx) off2 = (0, page2)"
    and "start_offset page1 = start_offset page2"
    and "fbw_erase_twice ctx off1 off2 e = ((rc1, rc2), ctx2, e2)"
  shows "rc2 = 0
       \<and> fbw_erase ctx off1 e = (rc1, ctx2, e2)
       \<and> erase_calls (trace e2) =
           erase_calls (trace e) @
             (if last_erased_page_start_offset ctx = start_offset page1 then []
              else [(start_offset page1, size_pg page1)])"
proof -
  obtain r c1 e1 where first: "fbw_erase ctx off1 e = (r, c1, e1)"
    by (cases "fbw_erase ctx off1 e") auto
  have marker: "last_erased_page_start_offset c1 = start_offset page1"
    and dev: "fdev c1 = fdev ctx"
    and log: "erase_calls (trace e1) =
           erase_calls (trace e) @
             (if last_erased_page_start_offset ctx = start_offset page1 then []
              else [(start_offset page1, size_pg page1)])"
    using first assms(1) by (auto elim!: fbw_erase_cases)
  have second: "fbw_erase c1 off2 e1 = (0, c1, e1)"
    using marker dev assms(2,3) by (simp add: fbw_erase_def)
  from assms(4) first second log show ?thesis
    by (simp add: fbw_erase_twice_def)
qed

theorem fbw_erase_twice_same_page_witness:
  "fbw_erase_twice (test_ctx 256 983040 None) FLASH_BASE (FLASH_BASE + 100) env0
     = ((0, 0), (test_ctx 256 983040 None)\<lparr>last_erased_page_start_offset := 65536\<rparr>,
        \<lparr>world = erased_world\<lparr>flash_mem := sim_store (\<lambda>a. 255) 65536 (replicate 4096 255)\<rparr>,
         trace = [Ev_protect False, Ev_erase 65536 4096, Ev_protect True]\<rparr>)
   \<and> erase_calls [Ev_protect False, Ev_erase 65536 4096, Ev_protect True] = [(65536, 4096)]"
proof -
  have h1: "flash_get_page_info_by_offs (fdev (test_ctx 256 983040 None)) FLASH_BASE
     = (0, \<lparr>start_offset = 65536, size_pg = 4096, index = 16\<rparr>)"
    by (simp add: sim_defs)
  have h2: "flash_get_page_info_by_offs (fdev (test_ctx 256 983040 None)) (FLASH_BASE + 100)
     = (0, \<lparr>start_offset = 65536, size_pg = 4096, index = 16\<rparr>)"
    by (simp add: sim_defs)
  have h3: "start_offset \<lparr>start_offset = 65536 :: off_t, size_pg = 4096, index = 16\<rparr>
     = start_offset \<lparr>start_offset = 65536 :: off_t, size_pg = 4096, index = 16\<rparr>"
    by simp
  have h4: "fbw_erase_twice (test_ctx 256 983040 None) FLASH_BASE (FLASH_BASE + 100) env0
     = ((0, 0), (test_ctx 256 983040 None)\<lparr>last_erased_page_start_offset := 65536\<rparr>,
        \<lparr>world = erased_world\<lparr>flash_mem := sim_store (\<lambda>a. 255) 65536 (replicate 4096 255)\<rparr>,
         trace = [Ev_protect False, Ev_erase 65536 4096, Ev_protect True]\<rparr>)"
    by (simp add: fbw_erase_twice_def fbw_erase_def call_defs sim_defs)
  from fbw_erase_twice_same_page [OF h1 h2 h3 h4] h4 show ?thesis
    by (simp add: env0_def test_ctx_def)
qed

subsection \<open>flash_sync\<close>

text \<open>
  The five ways a commit can go, with what each does to the counters and to the log. In the
  last one the hook has run: the counters have advanced whatever status the hook returned.
\<close>

lemma flash_sync_cases:
  assumes "flash_sync erase_on ctx e = (rc, ctx', e')"
  obtains
    (erase_failed) "erase_on" "rc <s 0"
      "bytes_written ctx' = bytes_written ctx" "buf_bytes ctx' = buf_bytes ctx"
      "write_calls (trace e') = write_calls (trace e)"
      "hook_calls (trace e') = hook_calls (trace e)"
  | (write_failed) "rc \<noteq> 0"
      "bytes_written ctx' = bytes_written ctx" "buf_bytes ctx' = buf_bytes ctx"
      "write_calls (trace e') =
         write_calls (trace e) @ [(offset ctx + bytes_written ctx, buf_bytes ctx)]"
      "hook_calls (trace e') = hook_calls (trace e)"
  | (no_hook) "callback ctx = None" "rc = 0"
      "bytes_written ctx' = bytes_written ctx + buf_bytes ctx" "buf_bytes ctx' = 0"
      "write_calls (trace e') =
         write_calls (trace e) @ [(offset ctx + bytes_written ctx, buf_bytes ctx)]"
      "hook_calls (trace e') = hook_calls (trace e)"
  | (read_failed) cb where "callback ctx = Some cb" "rc \<noteq> 0"
      "bytes_written ctx' = bytes_written ctx" "buf_bytes ctx' = buf_bytes ctx"
      "write_calls (trace e') =
         write_calls (trace e) @ [(offset ctx + bytes_written ctx, buf_bytes ctx)]"
      "hook_calls (trace e') = hook_calls (trace e)"
  | (hook_ran) cb where "callback ctx = Some cb"
      "bytes_written ctx' = bytes_written ctx + buf_bytes ctx" "buf_bytes ctx' = 0"
      "write_calls (trace e') =
         write_calls (trace e) @ [(offset ctx + bytes_written ctx, buf_bytes ctx)]"
      "hook_calls (trace e') =
         hook_calls (trace e) @ [(buf_bytes ctx, offset ctx + bytes_written ctx)]"
proof (cases erase_on)
  case False
  with assms show ?thesis
    unfolding flash_sync_def Let_def
    by (auto split: prod.splits if_splits option.splits
        dest!: call_write_trace call_read_trace call_hook_trace intro: that)
next
  case True
  obtain rc0 ctx1 e1
    where er: "fbw_erase ctx (offset ctx + bytes_written ctx + buf_bytes ctx) e = (rc0, ctx1, e1)"
    by (cases "fbw_erase ctx (offset ctx + bytes_written ctx + buf_bytes ctx) e") auto
  note fr = fbw_erase_frame [OF er]
  have f1: "bytes_written ctx1 = bytes_written ctx" "buf_bytes ctx1 = buf_bytes ctx"
    "callback ctx1 = callback ctx"
    by (subst fr(1), simp)+
  from assms True er f1 fr(2,3) show ?thesis
    unfolding flash_sync_def Let_def
    by (auto split: prod.splits if_splits option.splits
        dest!: call_write_trace call_read_trace call_hook_trace intro: that)
qed

lemma flash_sync_frame:
  assumes "flash_sync erase_on ctx e = (rc, ctx', e')"
  shows "fdev ctx' = fdev ctx \<and> buf_len ctx' = buf_len ctx \<and> offset ctx' = offset ctx
       \<and> available ctx' = available ctx \<and> callback ctx' = callback ctx"
proof -
  obtain rc0 ctx1 e1
    where er: "fbw_erase ctx (offset ctx + bytes_written ctx + buf_bytes ctx) e = (rc0, ctx1, e1)"
    by (cases "fbw_erase ctx (offset ctx + bytes_written ctx + buf_bytes ctx) e") auto
  note fr = fbw_erase_frame [OF er]
  have f1: "fdev ctx1 = fdev ctx" "buf_len ctx1 = buf_len ctx" "offset ctx1 = offset ctx"
    "available ctx1 = available ctx" "callback ctx1 = callback ctx"
    by (subst fr(1), simp)+
  from assms er f1 show ?thesis
    unfolding flash_sync_def Let_def
    by (auto split: prod.splits if_splits option.splits)
qed

text \<open>A commit that returns 0.\<close>

lemma flash_sync_ok:
  assumes "flash_sync erase_on ctx e = (0, ctx', e')"
  shows "bytes_written ctx' = bytes_written ctx + buf_bytes ctx" "buf_bytes ctx' = 0"
    "write_calls (trace e') =
         write_calls (trace e) @ [(offset ctx + bytes_written ctx, buf_bytes ctx)]"
    "hook_calls (trace e') =
         hook_calls (trace e) @
           (if callback ctx = None then [] else [(buf_bytes ctx, offset ctx + bytes_written ctx)])"
  using assms by (auto elim!: flash_sync_cases)

text \<open>
  A commit that fails before the hook is reached (pre-erase, flash write or read-back)
  leaves both counters as they were.
\<close>

lemma flash_sync_failure_before_hook:
  assumes "flash_sync erase_on ctx e = (rc, ctx', e')"
    and "rc \<noteq> 0"
    and "hook_calls (trace e') = hook_calls (trace e)"
  shows "bytes_written ctx' = bytes_written ctx \<and> buf_bytes ctx' = buf_bytes ctx"
  using assms by (cases rule: flash_sync_cases) simp_all

subsection \<open>The commit loop of fbw_write\<close>

text \<open>
  Induction over a run of the loop that returns: the loop exits, or a commit fails, or a
  commit succeeds and the loop goes on.
\<close>

lemma fbw_write_loop_induct [consumes 1, case_names exit fail step]:
  assumes run: "fbw_write_loop erase_on data len ctx processed e = Some y"
    and exit: "\<And>ctx processed e.
        \<not> buf_len ctx - buf_bytes ctx \<le> len - processed \<Longrightarrow> P ctx processed e (0, ctx, processed, e)"
    and fail: "\<And>ctx processed e rc ctx2 e2.
        buf_len ctx - buf_bytes ctx \<le> len - processed \<Longrightarrow>
        flash_sync erase_on
          (ctx\<lparr>buf := memcpy (buf ctx) (unat (buf_bytes ctx)) data (unat processed)
                          (unat (buf_len ctx - buf_bytes ctx)),
               buf_bytes := buf_len ctx\<rparr>) e = (rc, ctx2, e2) \<Longrightarrow>
        rc \<noteq> 0 \<Longrightarrow> P ctx processed e (rc, ctx2, processed, e2)"
    and step: "\<And>ctx processed e ctx2 e2 y.
        buf_len ctx - buf_bytes ctx \<le> len - processed \<Longrightarrow>
        flash_sync erase_on
          (ctx\<lparr>buf := memcpy (buf ctx) (unat (buf_bytes ctx)) data (unat processed)
                          (unat (buf_len ctx - buf_bytes ctx)),
               buf_bytes := buf_len ctx\<rparr>) e = (0, ctx2, e2) \<Longrightarrow>
        P ctx2 (processed + (buf_len ctx - buf_bytes ctx)) e2 y \<Longrightarrow> P ctx processed e y"
  shows "P ctx processed e y"
proof (rule fbw_write_loop.raw_induct
    [where P = "\<lambda>eo d l ctx processed e y. eo = erase_on \<and> d = data \<and> l = len \<longrightarrow> P ctx processed e y",
      OF _ run, rule_format], goal_cases)
  case (1 loop eo d l ctx processed e y)
  then have eqs: "eo = erase_on" "d = data" "l = len" by simp_all
  show ?case
  proof (cases "buf_len ctx - buf_bytes ctx \<le> len - processed")
    case False
    with 1(2) eqs exit [OF False] show ?thesis by (auto simp: Let_def)
  next
    case True
    let ?ctx1 = "ctx\<lparr>buf := memcpy (buf ctx) (unat (buf_bytes ctx)) data (unat processed)
                                  (unat (buf_len ctx - buf_bytes ctx)),
                        buf_bytes := buf_len ctx\<rparr>"
    obtain rc ctx2 e2 where sync: "flash_sync erase_on ?ctx1 e = (rc, ctx2, e2)"
      by (cases "flash_sync erase_on ?ctx1 e") auto
    show ?thesis
    proof (cases "rc = 0")
      case False
      with 1(2) eqs True sync have "y = (rc, ctx2, processed, e2)" by (auto simp: Let_def)
      with fail [OF True sync False] show ?thesis by simp
    next
      case rc0: True
      with 1(2) eqs True sync
      have rec: "loop erase_on data len ctx2 (processed + (buf_len ctx - buf_bytes ctx)) e2 = Some y"
        by (auto simp: Let_def)
      from 1(1) [OF rec] have "P ctx2 (processed + (buf_len ctx - buf_bytes ctx)) e2 y" by simp
      with step [OF True sync [unfolded rc0]] show ?thesis by simp
    qed
  qed
qed simp_all

text \<open>In \<^verbatim>\<open>size_t\<close> arithmetic no byte is lost: a successful run keeps committed + staged + pending.\<close>

lemma fbw_write_loop_sum_aux:
  assumes "fbw_write_loop erase_on data len ctx processed e = Some y"
  shows "case y of (rc, ctx', processed', e') \<Rightarrow>
       rc = 0 \<longrightarrow> bytes_written ctx' + buf_bytes ctx' + (len - processed')
                   = bytes_written ctx + buf_bytes ctx + (len - processed)"
  using assms
proof (induction ctx processed e y rule: fbw_write_loop_induct)
  case (exit ctx processed e)
  then show ?case by simp
next
  case (fail ctx processed e rc ctx2 e2)
  then show ?case by simp
next
  case (step ctx processed e ctx2 e2 y)
  from flash_sync_ok(1,2) [OF step(2)] step(3) show ?case
    by (auto simp: algebra_simps)
qed

lemma fbw_write_loop_frame_aux:
  assumes "fbw_write_loop erase_on data len ctx processed e = Some y"
  shows "case y of (rc, ctx', processed', e') \<Rightarrow>
       fdev ctx' = fdev ctx \<and> buf_len ctx' = buf_len ctx \<and> offset ctx' = offset ctx
       \<and> available ctx' = available ctx \<and> callback ctx' = callback ctx"
  using assms
proof (induction ctx processed e y rule: fbw_write_loop_induct)
  case (exit ctx processed e)
  then show ?case by simp
next
  case (fail ctx processed e rc ctx2 e2)
  from flash_sync_frame [OF fail(2)] fail show ?case by simp
next
  case (step ctx processed e ctx2 e2 y)
  from flash_sync_frame [OF step(2)] step(3) show ?case by (auto split: prod.splits)
qed

lemmas fbw_write_loop_sum = fbw_write_loop_sum_aux [where y = "(rc, ctx', processed', e')", simplified] for rc ctx' processed' e'
lemmas fbw_write_loop_frame = fbw_write_loop_frame_aux [where y = "(rc, ctx', processed', e')", simplified] for rc ctx' processed' e'

lemma full_commits_0 [simp]: "full_commits start blen 0 = []"
  by (simp add: full_commits_def)

lemma full_commits_Suc:
  "full_commits start blen (Suc k) = (start, blen) # full_commits (start + blen) blen k"
proof -
  have "[0..<Suc k] = 0 # map Suc [0..<k]"
    by (simp add: upt_conv_Cons map_Suc_upt del: upt_Suc)
  then show ?thesis
    by (simp add: full_commits_def algebra_simps del: upt_Suc)
qed

lemma length_full_commits [simp]: "length (full_commits start blen k) = k"
  by (simp add: full_commits_def)

text \<open>
  A successful run from a well-formed context, exactly: with \<open>q\<close> the staged plus pending
  bytes, it commits \<open>q div buf_len\<close> full buffers back to back, calls the hook (if any) once
  per commit, and leaves \<open>q mod buf_len\<close> bytes staged or pending.
\<close>

lemma fbw_write_loop_commits_aux:
  assumes "fbw_write_loop erase_on data len ctx processed e = Some y"
  shows "buf_len ctx \<noteq> 0 \<longrightarrow> buf_bytes ctx \<le> buf_len ctx \<longrightarrow> processed \<le> len \<longrightarrow>
     (case y of (rc, ctx', processed', e') \<Rightarrow> rc = 0 \<longrightarrow>
        processed' \<le> len
      \<and> unat (buf_bytes ctx') + unat (len - processed')
          = (unat (buf_bytes ctx) + unat (len - processed)) mod unat (buf_len ctx)
      \<and> bytes_written ctx'
          = bytes_written ctx
            + of_nat ((unat (buf_bytes ctx) + unat (len - processed)) div unat (buf_len ctx))
              * buf_len ctx
      \<and> write_calls (trace e')
          = write_calls (trace e) @
            full_commits (offset ctx + bytes_written ctx) (buf_len ctx)
              ((unat (buf_bytes ctx) + unat (len - processed)) div unat (buf_len ctx))
      \<and> hook_calls (trace e')
          = hook_calls (trace e) @
            (if callback ctx = None then []
             else map prod.swap
               (full_commits (offset ctx + bytes_written ctx) (buf_len ctx)
                 ((unat (buf_bytes ctx) + unat (len - processed)) div unat (buf_len ctx)))))"
  using assms
proof (induction ctx processed e y rule: fbw_write_loop_induct)
  case (exit ctx processed e)
  show ?case
  proof (intro impI)
    assume h: "buf_len ctx \<noteq> 0" "buf_bytes ctx \<le> buf_len ctx" "processed \<le> len"
    from h(2) have nb: "unat (buf_len ctx - buf_bytes ctx) = unat (buf_len ctx) - unat (buf_bytes ctx)"
      by (simp add: unat_sub)
    from h(2) have le: "unat (buf_bytes ctx) \<le> unat (buf_len ctx)"
      by (simp add: word_le_nat_alt)
    from exit nb have "unat (len - processed) < unat (buf_len ctx) - unat (buf_bytes ctx)"
      by (simp add: word_le_nat_alt not_le)
    with le have "unat (buf_bytes ctx) + unat (len - processed) < unat (buf_len ctx)"
      by arith
    with h show "case (0, ctx, processed, e) of (rc, ctx', processed', e') \<Rightarrow> rc = 0 \<longrightarrow>
        processed' \<le> len
      \<and> unat (buf_bytes ctx') + unat (len - processed')
          = (unat (buf_bytes ctx) + unat (len - processed)) mod unat (buf_len ctx)
      \<and> bytes_written ctx'
          = bytes_written ctx
            + of_nat ((unat (buf_bytes ctx) + unat (len - processed)) div unat (buf_len ctx))
              * buf_len ctx
      \<and> write_calls (trace e')
          = write_calls (trace e) @
            full_commits (offset ctx + bytes_written ctx) (buf_len ctx)
              ((unat (buf_bytes ctx) + unat (len - processed)) div unat (buf_len ctx))
      \<and> hook_calls (trace e')
          = hook_calls (trace e) @
            (if callback ctx = None then []
             else map prod.swap
               (full_commits (offset ctx + bytes_written ctx) (buf_len ctx)
                 ((unat (buf_bytes ctx) + unat (len - processed)) div unat (buf_len ctx))))"
      by simp
  qed
next
  case (fail ctx processed e rc ctx2 e2)
  then show ?case by simp
next
  case (step ctx processed e ctx2 e2 y)
  show ?case
  proof (intro impI)
    assume h: "buf_len ctx \<noteq> 0" "buf_bytes ctx \<le> buf_len ctx" "processed \<le> len"
    define L where "L = unat (buf_len ctx)"
    define Q where "Q = unat (buf_bytes ctx) + unat (len - processed)"
    define Q2 where "Q2 = unat (len - (processed + (buf_len ctx - buf_bytes ctx)))"
    note ok = flash_sync_ok [OF step(2)]
    note fr = flash_sync_frame [OF step(2)]
    from h(2) have nb: "unat (buf_len ctx - buf_bytes ctx) = L - unat (buf_bytes ctx)"
      by (simp add: unat_sub L_def)
    from h(2) have le: "unat (buf_bytes ctx) \<le> L"
      by (simp add: word_le_nat_alt L_def)
    from h(3) have nr: "unat (len - processed) = unat len - unat processed"
      by (simp add: unat_sub)
    from h(3) have lp: "unat processed \<le> unat len"
      by (simp add: word_le_nat_alt)
    from step(1) nb have c: "L - unat (buf_bytes ctx) \<le> unat len - unat processed"
      by (simp add: word_le_nat_alt nr)
    have "unat processed + unat (buf_len ctx - buf_bytes ctx) < 2 ^ LENGTH(32)"
      using c lp nb unsigned_less [of len, where 'a = nat] by simp
    then have np: "unat (processed + (buf_len ctx - buf_bytes ctx)) = unat processed + (L - unat (buf_bytes ctx))"
      by (simp add: unat_add_lem [THEN iffD1] nb)
    with c lp have p2: "processed + (buf_len ctx - buf_bytes ctx) \<le> len"
      by (simp add: word_le_nat_alt)
    then have "Q2 = unat len - (unat processed + (L - unat (buf_bytes ctx)))"
      by (simp add: Q2_def unat_sub np)
    with c le lp nr have Q: "Q = Q2 + L"
      by (simp add: Q_def)
    from h(1) have L0: "0 < L"
      by (simp add: L_def unat_gt_0)
    from Q L0 have dv: "Q div L = Suc (Q2 div L)" and md: "Q mod L = Q2 mod L"
      by (simp_all add: div_add_self2)
    obtain rc ctx' processed' e' where y: "y = (rc, ctx', processed', e')"
      by (cases y) auto
    from fr have fr': "buf_len ctx2 = buf_len ctx" "offset ctx2 = offset ctx"
      "callback ctx2 = callback ctx"
      by simp_all
    from ok(1) have bw2: "bytes_written ctx2 = bytes_written ctx + buf_len ctx"
      by simp
    from ok(3) have w2: "write_calls (trace e2)
        = write_calls (trace e) @ [(offset ctx + bytes_written ctx, buf_len ctx)]"
      by simp
    from ok(4) have h2: "hook_calls (trace e2)
        = hook_calls (trace e) @
          (if callback ctx = None then [] else [(buf_len ctx, offset ctx + bytes_written ctx)])"
      by simp
    from step(3) h(1) p2
    have ih: "rc = 0 \<longrightarrow>
        processed' \<le> len
      \<and> unat (buf_bytes ctx') + unat (len - processed') = Q2 mod L
      \<and> bytes_written ctx' = bytes_written ctx2 + of_nat (Q2 div L) * buf_len ctx
      \<and> write_calls (trace e')
          = write_calls (trace e2) @
            full_commits (offset ctx + bytes_written ctx2) (buf_len ctx) (Q2 div L)
      \<and> hook_calls (trace e')
          = hook_calls (trace e2) @
            (if callback ctx = None then []
             else map prod.swap
               (full_commits (offset ctx + bytes_written ctx2) (buf_len ctx) (Q2 div L)))"
      by (simp add: y fr' ok(2) Q2_def L_def)
    have "rc = 0 \<longrightarrow>
        processed' \<le> len
      \<and> unat (buf_bytes ctx') + unat (len - processed') = Q mod L
      \<and> bytes_written ctx' = bytes_written ctx + of_nat (Q div L) * buf_len ctx
      \<and> write_calls (trace e')
          = write_calls (trace e) @
            full_commits (offset ctx + bytes_written ctx) (buf_len ctx) (Q div L)
      \<and> hook_calls (trace e')
          = hook_calls (trace e) @
            (if callback ctx = None then []
             else map prod.swap
               (full_commits (offset ctx + bytes_written ctx) (buf_len ctx) (Q div L)))"
      using ih unfolding dv md
      by (simp add: bw2 w2 h2 full_commits_Suc algebra_simps)
    then show "case y of (rc, ctx', processed', e') \<Rightarrow> rc = 0 \<longrightarrow>
        processed' \<le> len
      \<and> unat (buf_bytes ctx') + unat (len - processed')
          = (unat (buf_bytes ctx) + unat (len - processed)) mod unat (buf_len ctx)
      \<and> bytes_written ctx'
          = bytes_written ctx
            + of_nat ((unat (buf_bytes ctx) + unat (len - processed)) div unat (buf_len ctx))
              * buf_len ctx
      \<and> write_calls (trace e')
          = write_calls (trace e) @
            full_commits (offset ctx + bytes_written ctx) (buf_len ctx)
              ((unat (buf_bytes ctx) + unat (len - processed)) div unat (buf_len ctx))
      \<and> hook_calls (trace e')
          = hook_calls (trace e) @
            (if callback ctx = None then []
             else map prod.swap
               (full_commits (offset ctx + bytes_written ctx) (buf_len ctx)
                 ((unat (buf_bytes ctx) + unat (len - processed)) div unat (buf_len ctx))))"
      by (simp add: y Q_def L_def)
  qed
qed

lemmas fbw_write_loop_commits =
  fbw_write_loop_commits_aux [where y = "(rc, ctx', processed', e')" and processed = 0, simplified]
  for rc ctx' processed' e'

text \<open>With a buffer of length zero the loop never comes to a successful end.\<close>

lemma fbw_write_loop_buf_len_0_aux:
  assumes "fbw_write_loop erase_on data len ctx processed e = Some y"
  shows "buf_len ctx = 0 \<longrightarrow> buf_bytes ctx = 0 \<longrightarrow> fst y \<noteq> 0"
  using assms
proof (induction ctx processed e y rule: fbw_write_loop_induct)
  case (exit ctx processed e)
  then show ?case by auto
next
  case (fail ctx processed e rc ctx2 e2)
  then show ?case by simp
next
  case (step ctx processed e ctx2 e2 y)
  from flash_sync_frame [OF step(2)] flash_sync_ok(2) [OF step(2)] step(3) show ?case
    by simp
qed

text \<open>\<^verbatim>\<open>processed\<close> never passes \<^verbatim>\<open>len\<close>.\<close>

lemma fbw_write_loop_processed_aux:
  assumes "fbw_write_loop erase_on data len ctx processed e = Some y"
  shows "processed \<le> len \<longrightarrow> fst (snd (snd y)) \<le> len"
  using assms
proof (induction ctx processed e y rule: fbw_write_loop_induct)
  case (exit ctx processed e)
  then show ?case by simp
next
  case (fail ctx processed e rc ctx2 e2)
  then show ?case by simp
next
  case (step ctx processed e ctx2 e2 y)
  show ?case
  proof
    assume le: "processed \<le> len"
    then have "unat (len - processed) = unat len - unat processed"
      by (simp add: unat_sub)
    with step(1) le have "unat processed + unat (buf_len ctx - buf_bytes ctx) \<le> unat len"
      by (simp add: word_le_nat_alt)
    moreover from this have "unat (processed + (buf_len ctx - buf_bytes ctx))
        = unat processed + unat (buf_len ctx - buf_bytes ctx)"
      using unsigned_less [of len, where 'a = nat] by (simp add: unat_add_lem [THEN iffD1])
    ultimately have "processed + (buf_len ctx - buf_bytes ctx) \<le> len"
      by (simp add: word_le_nat_alt)
    with step(3) show "fst (snd (snd y)) \<le> len" by simp
  qed
qed

lemma stage_rest_simps:
  "processed \<le> len \<Longrightarrow> buf_bytes (stage_rest ctx1 data len processed) = buf_bytes ctx1 + (len - processed)"
  "bytes_written (stage_rest ctx1 data len processed) = bytes_written ctx1"
  "buf_len (stage_rest ctx1 data len processed) = buf_len ctx1"
  "offset (stage_rest ctx1 data len processed) = offset ctx1"
  "available (stage_rest ctx1 data len processed) = available ctx1"
  "callback (stage_rest ctx1 data len processed) = callback ctx1"
  "fdev (stage_rest ctx1 data len processed) = fdev ctx1"
  by (auto simp: stage_rest_def word_le_less_eq)

subsection \<open>fbw_write\<close>

text \<open>The four ways a call of \<open>fbw_write\<close> with both pointers present can return.\<close>

lemma fbw_write_cases:
  assumes "fbw_write erase_on (Some ctx) (Some data) len flush e = Some (rc, ctxp', e')"
  obtains
    (no_space) "bytes_written ctx + buf_bytes ctx + len > available ctx" "rc = - ENOMEM"
      "ctxp' = Some ctx" "e' = e"
  | (loop_failed) ctx1 processed where
      "\<not> bytes_written ctx + buf_bytes ctx + len > available ctx"
      "fbw_write_loop erase_on data len ctx 0 e = Some (rc, ctx1, processed, e')"
      "rc \<noteq> 0" "ctxp' = Some ctx1"
  | (staged) ctx1 processed where
      "\<not> bytes_written ctx + buf_bytes ctx + len > available ctx"
      "fbw_write_loop erase_on data len ctx 0 e = Some (0, ctx1, processed, e')"
      "processed \<le> len"
      "rc = 0" "\<not> (flush \<and> buf_bytes (stage_rest ctx1 data len processed) > 0)"
      "ctxp' = Some (stage_rest ctx1 data len processed)"
  | (flushed) ctx1 processed e1 ctx3 where
      "\<not> bytes_written ctx + buf_bytes ctx + len > available ctx"
      "fbw_write_loop erase_on data len ctx 0 e = Some (0, ctx1, processed, e1)"
      "processed \<le> len"
      "flush" "buf_bytes (stage_rest ctx1 data len processed) > 0"
      "flash_sync erase_on (stage_rest ctx1 data len processed) e1 = (rc, ctx3, e')"
      "ctxp' = Some ctx3"
proof (cases "bytes_written ctx + buf_bytes ctx + len > available ctx")
  case True
  with assms no_space show ?thesis
    by (simp add: fbw_write_def)
next
  case False
  with assms obtain rc1 ctx1 processed e1
    where loop: "fbw_write_loop erase_on data len ctx 0 e = Some (rc1, ctx1, processed, e1)"
    by (auto simp: fbw_write_def split: option.splits)
  from fbw_write_loop_processed_aux [OF loop] have ple: "processed \<le> len"
    by simp
  show ?thesis
  proof (cases "rc1 = 0")
    case rc1: False
    with assms False loop loop_failed show ?thesis
      by (simp add: fbw_write_def)
  next
    case rc1: True
    show ?thesis
    proof (cases "flush \<and> buf_bytes (stage_rest ctx1 data len processed) > 0")
      case fl: False
      with assms False loop rc1 ple staged [of ctx1 processed] show ?thesis
        by (auto simp: fbw_write_def stage_rest_def Let_def)
    next
      case fl: True
      obtain rc3 ctx3 e3
        where sync: "flash_sync erase_on (stage_rest ctx1 data len processed) e1 = (rc3, ctx3, e3)"
        by (cases "flash_sync erase_on (stage_rest ctx1 data len processed) e1") auto
      with assms False loop rc1 ple fl flushed [of ctx1 processed e1 ctx3] show ?thesis
        by (auto simp: fbw_write_def stage_rest_def Let_def)
    qed
  qed
qed


text \<open>The loop followed by the staging of the rest, from a well-formed context.\<close>

lemma fbw_write_loop_then_stage:
  assumes loop: "fbw_write_loop erase_on data len ctx 0 e = Some (0, ctx1, processed, e1)"
    and wf: "buf_bytes ctx \<le> buf_len ctx"
  shows "buf_len ctx \<noteq> 0"
    and "unat (buf_bytes (stage_rest ctx1 data len processed))
           = (unat (buf_bytes ctx) + unat len) mod unat (buf_len ctx)"
    and "bytes_written (stage_rest ctx1 data len processed)
           = bytes_written ctx
             + of_nat ((unat (buf_bytes ctx) + unat len) div unat (buf_len ctx)) * buf_len ctx"
    and "write_calls (trace e1)
           = write_calls (trace e) @
             full_commits (offset ctx + bytes_written ctx) (buf_len ctx)
               ((unat (buf_bytes ctx) + unat len) div unat (buf_len ctx))"
    and "hook_calls (trace e1)
           = hook_calls (trace e) @
             (if callback ctx = None then []
              else map prod.swap
                (full_commits (offset ctx + bytes_written ctx) (buf_len ctx)
                  ((unat (buf_bytes ctx) + unat len) div unat (buf_len ctx))))"
proof -
  from fbw_write_loop_buf_len_0_aux [OF loop] wf show L0: "buf_len ctx \<noteq> 0"
    by auto
  note lp = fbw_write_loop_commits_aux [OF loop, rule_format, OF L0 wf]
  have ple: "processed \<le> len"
    and rest: "unat (buf_bytes ctx1) + unat (len - processed)
        = (unat (buf_bytes ctx) + unat len) mod unat (buf_len ctx)"
    and bw: "bytes_written ctx1
        = bytes_written ctx
          + of_nat ((unat (buf_bytes ctx) + unat len) div unat (buf_len ctx)) * buf_len ctx"
    and wc: "write_calls (trace e1)
           = write_calls (trace e) @
             full_commits (offset ctx + bytes_written ctx) (buf_len ctx)
               ((unat (buf_bytes ctx) + unat len) div unat (buf_len ctx))"
    and hc: "hook_calls (trace e1)
           = hook_calls (trace e) @
             (if callback ctx = None then []
              else map prod.swap
                (full_commits (offset ctx + bytes_written ctx) (buf_len ctx)
                  ((unat (buf_bytes ctx) + unat len) div unat (buf_len ctx))))"
    using lp by simp_all
  from wc show "write_calls (trace e1)
           = write_calls (trace e) @
             full_commits (offset ctx + bytes_written ctx) (buf_len ctx)
               ((unat (buf_bytes ctx) + unat len) div unat (buf_len ctx))" .
  from hc show "hook_calls (trace e1)
           = hook_calls (trace e) @
             (if callback ctx = None then []
              else map prod.swap
                (full_commits (offset ctx + bytes_written ctx) (buf_len ctx)
                  ((unat (buf_bytes ctx) + unat len) div unat (buf_len ctx))))" .
  from bw show "bytes_written (stage_rest ctx1 data len processed)
           = bytes_written ctx
             + of_nat ((unat (buf_bytes ctx) + unat len) div unat (buf_len ctx)) * buf_len ctx"
    by (simp add: stage_rest_simps)
  from L0 have "(unat (buf_bytes ctx) + unat len) mod unat (buf_len ctx) < unat (buf_len ctx)"
    by (simp add: unat_gt_0)
  with rest have "unat (buf_bytes ctx1) + unat (len - processed) < 2 ^ LENGTH(32)"
    using unsigned_less [of "buf_len ctx", where 'a = nat] by simp
  then have "unat (buf_bytes ctx1 + (len - processed)) = unat (buf_bytes ctx1) + unat (len - processed)"
    by (simp only: unat_add_lem [THEN iffD1])
  with rest ple show "unat (buf_bytes (stage_rest ctx1 data len processed))
           = (unat (buf_bytes ctx) + unat len) mod unat (buf_len ctx)"
    by (simp only: stage_rest_simps)
qed


lemma expected_commits_eq:
  "expected_commits ctx len flush =
      full_commits (offset ctx + bytes_written ctx) (buf_len ctx)
        ((unat (buf_bytes ctx) + unat len) div unat (buf_len ctx)) @
      (if flush \<and> (unat (buf_bytes ctx) + unat len) mod unat (buf_len ctx) \<noteq> 0
       then [(offset ctx + bytes_written ctx
                + of_nat ((unat (buf_bytes ctx) + unat len) div unat (buf_len ctx)) * buf_len ctx,
              of_nat ((unat (buf_bytes ctx) + unat len) mod unat (buf_len ctx)))]
       else [])"
  by (simp add: expected_commits_def Let_def)

text \<open>A successful call from a well-formed context, exactly.\<close>

lemma fbw_write_success:
  assumes run: "fbw_write erase_on (Some ctx) (Some data) len flush e = Some (0, Some ctx', e')"
    and wf: "buf_bytes ctx \<le> buf_len ctx"
  shows "buf_len ctx \<noteq> 0
    \<and> write_calls (trace e') = write_calls (trace e) @ expected_commits ctx len flush
    \<and> hook_calls (trace e') =
           hook_calls (trace e) @
           (if callback ctx = None then [] else map prod.swap (expected_commits ctx len flush))
    \<and> bytes_written ctx' =
           bytes_written ctx
           + of_nat ((unat (buf_bytes ctx) + unat len) div unat (buf_len ctx)) * buf_len ctx
           + (if flush then of_nat ((unat (buf_bytes ctx) + unat len) mod unat (buf_len ctx)) else 0)
    \<and> unat (buf_bytes ctx') =
           (if flush then 0 else (unat (buf_bytes ctx) + unat len) mod unat (buf_len ctx))"
  using run
proof (cases rule: fbw_write_cases)
  case no_space
  then show ?thesis by (simp add: ENOMEM_def)
next
  case (loop_failed ctx1 processed)
  then show ?thesis by simp
next
  case (staged ctx1 processed)
  note st = fbw_write_loop_then_stage [OF staged(2) wf]
  from staged(6) have c: "ctx' = stage_rest ctx1 data len processed" by simp
  have r0: "(unat (buf_bytes ctx) + unat len) mod unat (buf_len ctx) = 0" if flush
  proof -
    from staged(5) that have "buf_bytes (stage_rest ctx1 data len processed) = 0"
      by (simp add: word_greater_zero_iff)
    with st(2) show ?thesis by simp
  qed
  show ?thesis
  proof (cases flush)
    case True
    with st r0 show ?thesis
      by (simp add: c expected_commits_eq)
  next
    case False
    with st show ?thesis
      by (simp add: c expected_commits_eq)
  qed
next
  case (flushed ctx1 processed e1 ctx3)
  note st = fbw_write_loop_then_stage [OF flushed(2) wf]
  note fr = fbw_write_loop_frame [OF flushed(2)]
  from flushed(7) have c3: "ctx3 = ctx'" by simp
  note ok = flash_sync_ok [OF flushed(6) [unfolded c3]]
  from flushed(5) have "unat (buf_bytes (stage_rest ctx1 data len processed)) \<noteq> 0"
    by (simp add: word_greater_zero_iff unat_eq_0)
  with st(2) have rn0: "(unat (buf_bytes ctx) + unat len) mod unat (buf_len ctx) \<noteq> 0"
    by simp
  have bb: "buf_bytes (stage_rest ctx1 data len processed)
      = of_nat ((unat (buf_bytes ctx) + unat len) mod unat (buf_len ctx))"
    using st(2) [symmetric] by simp
  have off: "offset (stage_rest ctx1 data len processed) = offset ctx"
    and cb: "callback (stage_rest ctx1 data len processed) = callback ctx"
    using fr by (simp_all add: stage_rest_simps)
  from ok(1) st(3) bb flushed(4)
  have g4: "bytes_written ctx' =
           bytes_written ctx
           + of_nat ((unat (buf_bytes ctx) + unat len) div unat (buf_len ctx)) * buf_len ctx
           + (if flush then of_nat ((unat (buf_bytes ctx) + unat len) mod unat (buf_len ctx)) else 0)"
    by (simp only: if_True)
  from ok(2) flushed(4) have g5: "unat (buf_bytes ctx') =
           (if flush then 0 else (unat (buf_bytes ctx) + unat len) mod unat (buf_len ctx))"
    by simp
  from ok(3) st(3,4) bb off flushed(4) rn0
  have g2: "write_calls (trace e') = write_calls (trace e) @ expected_commits ctx len flush"
    by (simp only: expected_commits_eq if_True simp_thms append_assoc add.assoc)
  from ok(4) st(3,5) bb off cb flushed(4) rn0
  have g3: "hook_calls (trace e') =
           hook_calls (trace e) @
           (if callback ctx = None then [] else map prod.swap (expected_commits ctx len flush))"
    by (cases "callback ctx = None") (simp_all add: expected_commits_eq add.assoc)
  from st(1) g2 g3 g4 g5 show ?thesis by blast
qed

lemmas eval_defs = fbw_write_def flash_sync_def fbw_erase_def call_defs sim_defs Let_def
  outcome_def sync_outcome_def counters_def staged_ctx_def env_hook_fails_def

subsection \<open>Commits and the hook\<close>

text \<open>
  C1 does not hold of the code. A failed flash write or read-back returns before the counters
  are touched (\<open>flash_sync_failure_before_hook\<close>), but after a
  non-zero status of the hook \<open>flash_sync\<close> only logs and falls through to the update of the
  counters. With the test suite's hook returning \<open>-EFAULT\<close>, a commit of a full buffer returns
  \<open>-EFAULT\<close> and still moves \<open>bytes_written\<close> from 0 to 512 and \<open>buf_bytes\<close> from 512 to 0; so
  does the \<open>fbw_write\<close> that triggers it.
\<close>

theorem flash_sync_hook_failure_advances:
  "counters (staged_ctx 256 983040 (Some fbw_callback) 512) = (0, 512, 983040)
   \<and> sync_outcome (flash_sync False (staged_ctx 256 983040 (Some fbw_callback) 512) env_hook_fails)
       = (- EFAULT, (512, 0, 983040), [(65536, 512)], [(512, 65536)])
   \<and> outcome (fbw_write False (Some (test_ctx 256 983040 (Some fbw_callback)))
                (Some (write_buf 512)) BUF_LEN True env_hook_fails)
       = Some (- EFAULT, Some (512, 0, 983040), [(65536, 512)], [(512, 65536)])"
proof -
  have a: "counters (staged_ctx 256 983040 (Some fbw_callback) 512) = (0, 512, 983040)"
    by (simp add: eval_defs)
  have b: "sync_outcome (flash_sync False (staged_ctx 256 983040 (Some fbw_callback) 512) env_hook_fails)
       = (- EFAULT, (512, 0, 983040), [(65536, 512)], [(512, 65536)])"
    by (simp add: eval_defs)
  have c: "outcome (fbw_write False (Some (test_ctx 256 983040 (Some fbw_callback)))
                (Some (write_buf 512)) BUF_LEN True env_hook_fails)
       = Some (- EFAULT, Some (512, 0, 983040), [(65536, 512)], [(512, 65536)])"
    apply (simp add: fbw_write_def sim_defs)
    apply (subst fbw_write_loop.simps)
    apply (simp add: eval_defs)
    done
  from a b c show ?thesis by simp
qed

text \<open>
  C2. With a hook installed, every commit (\<open>flash_sync\<close>) that returns 0 has called the hook
  exactly once, with the number of bytes committed as length and \<open>offset + bytes_written\<close> as
  it was before the commit as offset (in \<^verbatim>\<open>size_t\<close> arithmetic, as the source computes it).
  And every \<open>fbw_write\<close> that returns 0 from a context with \<open>buf_bytes \<le> buf_len\<close> has issued
  exactly the expected commits, \<open>buf_len\<close> bytes for each full buffer and the residue for a
  flush, with one hook call per commit carrying that commit's length and offset.
\<close>

theorem hook_called_once_per_commit:
  "(callback ctx = Some cb \<and> flash_sync erase_on ctx e = (0, ctx', e') \<longrightarrow>
      hook_calls (trace e') = hook_calls (trace e) @ [(buf_bytes ctx, offset ctx + bytes_written ctx)]
      \<and> write_calls (trace e') = write_calls (trace e) @ [(offset ctx + bytes_written ctx, buf_bytes ctx)]
      \<and> bytes_written ctx' = bytes_written ctx + buf_bytes ctx)
   \<and> (callback ctx = Some cb \<and> buf_bytes ctx \<le> buf_len ctx
       \<and> fbw_write erase_on (Some ctx) (Some data) len flush e = Some (0, Some ctx'', e'') \<longrightarrow>
      write_calls (trace e'') = write_calls (trace e) @ expected_commits ctx len flush
      \<and> hook_calls (trace e'') = hook_calls (trace e) @ map prod.swap (expected_commits ctx len flush))"
proof (intro conjI impI)
  assume h: "callback ctx = Some cb \<and> flash_sync erase_on ctx e = (0, ctx', e')"
  then have s: "flash_sync erase_on ctx e = (0, ctx', e')" and c: "callback ctx = Some cb"
    by simp_all
  from flash_sync_ok [OF s] c
  show "hook_calls (trace e') = hook_calls (trace e) @ [(buf_bytes ctx, offset ctx + bytes_written ctx)]"
    and "write_calls (trace e') = write_calls (trace e) @ [(offset ctx + bytes_written ctx, buf_bytes ctx)]"
    and "bytes_written ctx' = bytes_written ctx + buf_bytes ctx"
    by simp_all
next
  assume h: "callback ctx = Some cb \<and> buf_bytes ctx \<le> buf_len ctx
       \<and> fbw_write erase_on (Some ctx) (Some data) len flush e = Some (0, Some ctx'', e'')"
  then have run: "fbw_write erase_on (Some ctx) (Some data) len flush e = Some (0, Some ctx'', e'')"
    and wf: "buf_bytes ctx \<le> buf_len ctx" and c: "callback ctx = Some cb"
    by simp_all
  from fbw_write_success [OF run wf] c
  show "write_calls (trace e'') = write_calls (trace e) @ expected_commits ctx len flush"
    and "hook_calls (trace e'') = hook_calls (trace e) @ map prod.swap (expected_commits ctx len flush)"
    by simp_all
qed


theorem hook_called_once_per_commit_witness:
  "outcome (fbw_write False (Some (test_ctx 256 983040 (Some fbw_callback)))
              (Some (write_buf 640)) 640 True env0)
     = Some (0, Some (640, 0, 983040), [(65536, 512), (66048, 128)], [(512, 65536), (128, 66048)])
   \<and> expected_commits (test_ctx 256 983040 (Some fbw_callback)) 640 True
     = [(65536, 512), (66048, 128)]
   \<and> sync_outcome (flash_sync False (staged_ctx 256 983040 (Some fbw_callback) 256) env0)
     = (0, (256, 0, 983040), [(65536, 256)], [(256, 65536)])"
proof -
  let ?ctx = "test_ctx 256 983040 (Some fbw_callback)"
  let ?st = "staged_ctx 256 983040 (Some fbw_callback) 256"
  have ev: "outcome (fbw_write False (Some ?ctx) (Some (write_buf 640)) 640 True env0)
     = Some (0, Some (640, 0, 983040), [(65536, 512), (66048, 128)], [(512, 65536), (128, 66048)])"
    apply (simp add: fbw_write_def sim_defs)
    apply (subst fbw_write_loop.simps)
    apply (simp add: eval_defs)
    apply (subst fbw_write_loop.simps)
    apply (simp add: eval_defs)
    done
  then obtain c2 e2
    where run: "fbw_write False (Some ?ctx) (Some (write_buf 640)) 640 True env0 = Some (0, Some c2, e2)"
    by (auto simp: outcome_def)
  have cb: "callback ?ctx = Some fbw_callback" and wf: "buf_bytes ?ctx \<le> buf_len ?ctx"
    by (simp_all add: test_ctx_def)
  have sy: "sync_outcome (flash_sync False ?st env0) = (0, (256, 0, 983040), [(65536, 256)], [(256, 65536)])"
    by (simp add: eval_defs)
  then obtain c1 e1 where sync: "flash_sync False ?st env0 = (0, c1, e1)"
    by (auto simp: sync_outcome_def split: prod.splits)
  have cb1: "callback ?st = Some fbw_callback"
    by (simp add: staged_ctx_def test_ctx_def)
  from hook_called_once_per_commit [THEN conjunct1, rule_format, OF conjI, OF cb1 sync]
  have one: "hook_calls (trace e1) = hook_calls (trace env0) @ [(buf_bytes ?st, offset ?st + bytes_written ?st)]"
    by simp
  from hook_called_once_per_commit [THEN conjunct2, rule_format, OF conjI, OF cb conjI, OF wf run]
  have "write_calls (trace e2) = write_calls (trace env0) @ expected_commits ?ctx 640 True"
    by simp
  with run ev have "expected_commits ?ctx 640 True = [(65536, 512), (66048, 128)]"
    by (simp add: outcome_def env0_def)
  with ev sy one show ?thesis by simp
qed

subsection \<open>Byte accounting of fbw_write\<close>

lemma unat_add_mult_no_wrap:
  fixes a b :: size_t
  assumes "unat a + k * unat b < 2 ^ LENGTH(32)"
  shows "unat (a + of_nat k * b) = unat a + k * unat b"
proof -
  have "a + of_nat k * b = of_nat (unat a + k * unat b)"
    by simp
  then have "unat (a + of_nat k * b) = (unat a + k * unat b) mod 2 ^ LENGTH(32)"
    by (simp only: unat_of_nat)
  with assms show ?thesis by simp
qed

text \<open>In \<^verbatim>\<open>size_t\<close> arithmetic, for any context.\<close>

lemma fbw_write_sum_word:
  assumes run: "fbw_write erase_on (Some ctx) (Some data) len flush e = Some (0, Some ctx', e')"
  shows "bytes_written ctx' + buf_bytes ctx' = bytes_written ctx + buf_bytes ctx + len"
  using run
proof (cases rule: fbw_write_cases)
  case no_space
  then show ?thesis by (simp add: ENOMEM_def)
next
  case (loop_failed ctx1 processed)
  then show ?thesis by simp
next
  case (staged ctx1 processed)
  from fbw_write_loop_sum [OF staged(2)] staged(3,6) show ?thesis
    by (auto simp: stage_rest_simps algebra_simps)
next
  case (flushed ctx1 processed e1 ctx3)
  from flushed(7) have c3: "ctx3 = ctx'" by simp
  note ok = flash_sync_ok(1,2) [OF flushed(6) [unfolded c3]]
  from fbw_write_loop_sum [OF flushed(2)] flushed(3) ok show ?thesis
    by (auto simp: stage_rest_simps algebra_simps)
qed

text \<open>
  C5. For every \<open>fbw_write\<close> that returns 0, \<open>bytes_written + buf_bytes\<close> after the call is
  \<open>bytes_written + buf_bytes\<close> before the call plus \<open>len\<close>: in the \<^verbatim>\<open>size_t\<close> arithmetic of the
  source for every context, and as exact integers whenever the context is well formed
  (\<open>buf_bytes \<le> buf_len\<close>) and the sum before the call plus \<open>len\<close> fits \<^verbatim>\<open>size_t\<close>.
\<close>

theorem fbw_write_capacity:
  assumes run: "fbw_write erase_on (Some ctx) (Some data) len flush e = Some (0, Some ctx', e')"
  shows "bytes_written ctx' + buf_bytes ctx' = bytes_written ctx + buf_bytes ctx + len
       \<and> (buf_bytes ctx \<le> buf_len ctx
            \<and> unat (bytes_written ctx) + unat (buf_bytes ctx) + unat len < 2 ^ 32 \<longrightarrow>
          unat (bytes_written ctx') + unat (buf_bytes ctx')
            = unat (bytes_written ctx) + unat (buf_bytes ctx) + unat len)"
proof (intro conjI impI)
  show "bytes_written ctx' + buf_bytes ctx' = bytes_written ctx + buf_bytes ctx + len"
    by (rule fbw_write_sum_word [OF run])
next
  assume h: "buf_bytes ctx \<le> buf_len ctx
            \<and> unat (bytes_written ctx) + unat (buf_bytes ctx) + unat len < 2 ^ 32"
  then have wf: "buf_bytes ctx \<le> buf_len ctx"
    and fit: "unat (bytes_written ctx) + unat (buf_bytes ctx) + unat len < 2 ^ 32"
    by simp_all
  define L where "L = unat (buf_len ctx)"
  define q where "q = unat (buf_bytes ctx) + unat len"
  note sc = fbw_write_success [OF run wf, folded q_def L_def]
  have split: "q div L * L + q mod L = q"
    by simp
  then have kl: "q div L * L \<le> q"
    by arith
  from fit have fit': "unat (bytes_written ctx) + q < 2 ^ LENGTH(32)"
    by (simp add: q_def)
  have "unat (bytes_written ctx) + q div L * L < 2 ^ LENGTH(32)"
    by (rule le_less_trans [OF add_left_mono [OF kl] fit'])
  then have "unat (bytes_written ctx) + q div L * unat (buf_len ctx) < 2 ^ LENGTH(32)"
    by (simp only: L_def)
  then have bw1: "unat (bytes_written ctx + of_nat (q div L) * buf_len ctx)
      = unat (bytes_written ctx) + q div L * L"
    by (simp only: unat_add_mult_no_wrap L_def)
  show "unat (bytes_written ctx') + unat (buf_bytes ctx')
            = unat (bytes_written ctx) + unat (buf_bytes ctx) + unat len"
  proof (cases flush)
    case False
    with sc bw1 split show ?thesis
      by (simp add: q_def)
  next
    case True
    with sc have "buf_bytes ctx' = 0"
      by (simp add: unat_eq_0)
    with fbw_write_sum_word [OF run]
    have "bytes_written ctx' = bytes_written ctx + buf_bytes ctx + len"
      by simp
    moreover from fit have "unat (bytes_written ctx + buf_bytes ctx + len)
        = unat (bytes_written ctx) + unat (buf_bytes ctx) + unat len"
      by (simp add: unat_add_lem [THEN iffD1])
    ultimately show ?thesis using \<open>buf_bytes ctx' = 0\<close> by simp
  qed
qed


theorem fbw_write_capacity_witness:
  "outcome (fbw_write False (Some (staged_ctx 256 983040 None 128)) (Some (write_buf 640)) 640 True env0)
     = Some (0, Some (768, 0, 983040), [(65536, 512), (66048, 256)], [])
   \<and> buf_bytes (staged_ctx 256 983040 None 128) \<le> buf_len (staged_ctx 256 983040 None 128)
   \<and> unat (bytes_written (staged_ctx 256 983040 None 128))
       + unat (buf_bytes (staged_ctx 256 983040 None 128)) + unat (640 :: size_t) = 768"
proof -
  let ?ctx = "staged_ctx 256 983040 None 128"
  have ev: "outcome (fbw_write False (Some ?ctx) (Some (write_buf 640)) 640 True env0)
     = Some (0, Some (768, 0, 983040), [(65536, 512), (66048, 256)], [])"
    apply (simp add: fbw_write_def sim_defs staged_ctx_def)
    apply (subst fbw_write_loop.simps)
    apply (simp add: eval_defs)
    apply (subst fbw_write_loop.simps)
    apply (simp add: eval_defs)
    done
  then obtain c2 e2
    where run: "fbw_write False (Some ?ctx) (Some (write_buf 640)) 640 True env0 = Some (0, Some c2, e2)"
      and c2: "counters c2 = (768, 0, 983040)"
    by (auto simp: outcome_def)
  have wf: "buf_bytes ?ctx \<le> buf_len ?ctx"
    by (simp add: staged_ctx_def test_ctx_def BUF_LEN_def)
  have fit: "unat (bytes_written ?ctx) + unat (buf_bytes ?ctx) + unat (640 :: size_t) < 2 ^ 32"
    by (simp add: staged_ctx_def test_ctx_def)
  from fbw_write_capacity [OF run, THEN conjunct2, rule_format, OF conjI, OF wf fit] c2
  have "unat (bytes_written ?ctx) + unat (buf_bytes ?ctx) + unat (640 :: size_t) = 768"
    by (simp add: counters_def)
  with ev wf show ?thesis by simp
qed

text \<open>
  C6 as stated fails: with 128 bytes staged by an earlier write, a successful write of
  \<open>BUF_LEN\<close> bytes (one exact multiple of \<open>buf_len\<close>, no flush) commits once and leaves
  \<open>buf_bytes = 128\<close>, not 0.
\<close>

theorem fbw_write_multiple_leaves_staged_bytes_counterexample:
  "fbw_write False (Some (test_ctx 256 983040 None)) (Some (write_buf 128)) 128 False env0
     = Some (0, Some (staged_ctx 256 983040 None 128), env0)
   \<and> outcome (fbw_write False (Some (staged_ctx 256 983040 None 128)) (Some (write_buf 512))
                BUF_LEN False env0)
     = Some (0, Some (512, 128, 983040), [(65536, 512)], [])
   \<and> unat BUF_LEN mod unat (buf_len (staged_ctx 256 983040 None 128)) = 0
   \<and> (128 :: size_t) \<noteq> 0"
proof -
  have a: "fbw_write False (Some (test_ctx 256 983040 None)) (Some (write_buf 128)) 128 False env0
     = Some (0, Some (staged_ctx 256 983040 None 128), env0)"
    apply (simp add: fbw_write_def sim_defs)
    apply (subst fbw_write_loop.simps)
    apply (simp add: eval_defs)
    done
  have b: "outcome (fbw_write False (Some (staged_ctx 256 983040 None 128)) (Some (write_buf 512))
                BUF_LEN False env0)
     = Some (0, Some (512, 128, 983040), [(65536, 512)], [])"
    apply (simp add: fbw_write_def sim_defs staged_ctx_def)
    apply (subst fbw_write_loop.simps)
    apply (simp add: eval_defs)
    apply (subst fbw_write_loop.simps)
    apply (simp add: eval_defs)
    done
  have c: "unat BUF_LEN mod unat (buf_len (staged_ctx 256 983040 None 128)) = 0"
    by (simp add: staged_ctx_def test_ctx_def BUF_LEN_def)
  from a b c show ?thesis by simp
qed

text \<open>
  C6, amended. For every \<open>fbw_write\<close> without flush that returns 0, from a context with fewer
  than \<open>buf_len\<close> bytes staged and with \<open>len\<close> an exact multiple of \<open>buf_len\<close>: the call issues
  exactly \<open>len div buf_len\<close> commits, each of \<open>buf_len\<close> bytes and back to back, and leaves
  \<open>buf_bytes\<close> at its value before the call; so \<open>buf_bytes\<close> is 0 afterwards exactly when the
  staging buffer was empty when the call began.
\<close>

theorem fbw_write_multiple_of_buf_len:
  assumes run: "fbw_write erase_on (Some ctx) (Some data) len False e = Some (0, Some ctx', e')"
    and lt: "buf_bytes ctx < buf_len ctx"
    and mult: "unat len mod unat (buf_len ctx) = 0"
  shows "write_calls (trace e') =
           write_calls (trace e) @
           full_commits (offset ctx + bytes_written ctx) (buf_len ctx) (unat len div unat (buf_len ctx))
       \<and> length (write_calls (trace e')) =
           length (write_calls (trace e)) + unat len div unat (buf_len ctx)
       \<and> buf_bytes ctx' = buf_bytes ctx"
proof -
  define L where "L = unat (buf_len ctx)"
  define b where "b = unat (buf_bytes ctx)"
  from lt have wf: "buf_bytes ctx \<le> buf_len ctx" by simp
  from lt have bL: "b < L" by (simp add: word_less_nat_alt b_def L_def)
  from mult have "L dvd unat len"
    by (simp add: L_def mod_eq_0_iff_dvd)
  then obtain m where m: "unat len = L * m"
    by (auto elim: dvdE)
  from bL have dv: "(b + unat len) div L = unat len div L"
    by (simp add: m)
  from bL have md: "(b + unat len) mod L = b"
    by (simp add: m)
  note sc = fbw_write_success [OF run wf, folded b_def L_def, unfolded dv md]
  from sc have w: "write_calls (trace e') =
           write_calls (trace e) @
           full_commits (offset ctx + bytes_written ctx) (buf_len ctx) (unat len div L)"
    by (simp add: expected_commits_eq dv [unfolded b_def L_def] L_def)
  from sc have "unat (buf_bytes ctx') = unat (buf_bytes ctx)"
    by (simp add: b_def)
  then have "buf_bytes ctx' = buf_bytes ctx"
    by (simp only: word_unat_eq_iff)
  with w show ?thesis by (simp add: L_def)
qed

theorem fbw_write_multiple_of_buf_len_witness:
  "outcome (fbw_write False (Some (test_ctx 256 983040 None)) (Some (write_buf 1024)) 1024 False env0)
     = Some (0, Some (1024, 0, 983040), [(65536, 512), (66048, 512)], [])
   \<and> buf_bytes (test_ctx 256 983040 None) < buf_len (test_ctx 256 983040 None)
   \<and> unat (1024 :: size_t) mod unat (buf_len (test_ctx 256 983040 None)) = 0
   \<and> unat (1024 :: size_t) div unat (buf_len (test_ctx 256 983040 None)) = 2"
proof -
  let ?ctx = "test_ctx 256 983040 None"
  have ev: "outcome (fbw_write False (Some ?ctx) (Some (write_buf 1024)) 1024 False env0)
     = Some (0, Some (1024, 0, 983040), [(65536, 512), (66048, 512)], [])"
    apply (simp add: fbw_write_def sim_defs)
    apply (subst fbw_write_loop.simps)
    apply (simp add: eval_defs)
    apply (subst fbw_write_loop.simps)
    apply (simp add: eval_defs)
    apply (subst fbw_write_loop.simps)
    apply (simp add: eval_defs)
    done
  then obtain c2 e2
    where run: "fbw_write False (Some ?ctx) (Some (write_buf 1024)) 1024 False env0 = Some (0, Some c2, e2)"
      and w2: "write_calls (trace e2) = [(65536, 512), (66048, 512)]"
    by (auto simp: outcome_def)
  have lt: "buf_bytes ?ctx < buf_len ?ctx"
    by (simp add: test_ctx_def BUF_LEN_def)
  have mult: "unat (1024 :: size_t) mod unat (buf_len ?ctx) = 0"
    by (simp add: test_ctx_def BUF_LEN_def)
  from fbw_write_multiple_of_buf_len [OF run lt mult] w2
  have "unat (1024 :: size_t) div unat (buf_len ?ctx) = 2"
    by (simp add: env0_def)
  with ev lt mult show ?thesis by simp
qed

subsection \<open>The capacity invariant, as far as it holds\<close>

text \<open>
  Along the loop from a well-formed context, as long as the exact sum of committed, staged
  and pending bytes fits \<^verbatim>\<open>size_t\<close>: the sum never grows, and the buffer never overfills.
\<close>

lemma fbw_write_loop_bound_aux:
  assumes "fbw_write_loop erase_on data len ctx processed e = Some y"
  shows "buf_bytes ctx \<le> buf_len ctx \<longrightarrow> processed \<le> len \<longrightarrow>
     unat (bytes_written ctx) + unat (buf_bytes ctx) + unat (len - processed) < 2 ^ 32 \<longrightarrow>
     (case y of (rc, ctx', processed', e') \<Rightarrow>
        buf_bytes ctx' \<le> buf_len ctx'
      \<and> unat (bytes_written ctx') + unat (buf_bytes ctx')
          + (if rc = 0 then unat (len - processed') else 0)
          \<le> unat (bytes_written ctx) + unat (buf_bytes ctx) + unat (len - processed))"
  using assms
proof (induction ctx processed e y rule: fbw_write_loop_induct)
  case (exit ctx processed e)
  then show ?case by simp
next
  case (fail ctx processed e rc ctx2 e2)
  show ?case
  proof (intro impI)
    assume wf: "buf_bytes ctx \<le> buf_len ctx" and ple: "processed \<le> len"
      and fit: "unat (bytes_written ctx) + unat (buf_bytes ctx) + unat (len - processed) < 2 ^ 32"
    from wf have nb: "unat (buf_len ctx - buf_bytes ctx) = unat (buf_len ctx) - unat (buf_bytes ctx)"
      by (simp add: unat_sub)
    from wf have le: "unat (buf_bytes ctx) \<le> unat (buf_len ctx)"
      by (simp add: word_le_nat_alt)
    from fail(1) nb have c: "unat (buf_len ctx) - unat (buf_bytes ctx) \<le> unat (len - processed)"
      by (simp add: word_le_nat_alt)
    with le have full: "unat (buf_len ctx) \<le> unat (buf_bytes ctx) + unat (len - processed)"
      by arith
    with fit have "unat (bytes_written ctx) + unat (buf_len ctx) < 2 ^ LENGTH(32)"
      by simp
    then have adv: "unat (bytes_written ctx + buf_len ctx) = unat (bytes_written ctx) + unat (buf_len ctx)"
      by (simp only: unat_add_lem [THEN iffD1])
    from flash_sync_frame [OF fail(2)] have bl: "buf_len ctx2 = buf_len ctx"
      by simp
    from fail(2) have "buf_bytes ctx2 \<le> buf_len ctx
      \<and> unat (bytes_written ctx2) + unat (buf_bytes ctx2)
          \<le> unat (bytes_written ctx) + unat (buf_len ctx)"
      by (cases rule: flash_sync_cases) (simp_all add: adv)
    with full fail(3) bl
    show "case (rc, ctx2, processed, e2) of (rc, ctx', processed', e') \<Rightarrow>
        buf_bytes ctx' \<le> buf_len ctx'
      \<and> unat (bytes_written ctx') + unat (buf_bytes ctx')
          + (if rc = 0 then unat (len - processed') else 0)
          \<le> unat (bytes_written ctx) + unat (buf_bytes ctx) + unat (len - processed)"
      by simp
  qed
next
  case (step ctx processed e ctx2 e2 y)
  show ?case
  proof (intro impI)
    assume wf: "buf_bytes ctx \<le> buf_len ctx" and ple: "processed \<le> len"
      and fit: "unat (bytes_written ctx) + unat (buf_bytes ctx) + unat (len - processed) < 2 ^ 32"
    from wf have nb: "unat (buf_len ctx - buf_bytes ctx) = unat (buf_len ctx) - unat (buf_bytes ctx)"
      by (simp add: unat_sub)
    from wf have le: "unat (buf_bytes ctx) \<le> unat (buf_len ctx)"
      by (simp add: word_le_nat_alt)
    from ple have nr: "unat (len - processed) = unat len - unat processed"
      by (simp add: unat_sub)
    from ple have lp: "unat processed \<le> unat len"
      by (simp add: word_le_nat_alt)
    from step(1) nb have c: "unat (buf_len ctx) - unat (buf_bytes ctx) \<le> unat len - unat processed"
      by (simp add: word_le_nat_alt nr)
    have "unat processed + unat (buf_len ctx - buf_bytes ctx) < 2 ^ LENGTH(32)"
      using c lp nb unsigned_less [of len, where 'a = nat] by simp
    then have np: "unat (processed + (buf_len ctx - buf_bytes ctx))
        = unat processed + (unat (buf_len ctx) - unat (buf_bytes ctx))"
      by (simp add: unat_add_lem [THEN iffD1] nb)
    with c lp have p2: "processed + (buf_len ctx - buf_bytes ctx) \<le> len"
      by (simp add: word_le_nat_alt)
    then have r2: "unat (len - (processed + (buf_len ctx - buf_bytes ctx)))
        = unat len - (unat processed + (unat (buf_len ctx) - unat (buf_bytes ctx)))"
      by (simp add: unat_sub np)
    from c le nr fit have "unat (bytes_written ctx) + unat (buf_len ctx) < 2 ^ LENGTH(32)"
      by simp
    then have adv: "unat (bytes_written ctx + buf_len ctx) = unat (bytes_written ctx) + unat (buf_len ctx)"
      by (simp only: unat_add_lem [THEN iffD1])
    note ok = flash_sync_ok(1,2) [OF step(2)]
    from flash_sync_frame [OF step(2)] have bl: "buf_len ctx2 = buf_len ctx"
      by simp
    from ok have bw2: "bytes_written ctx2 = bytes_written ctx + buf_len ctx" and bb2: "buf_bytes ctx2 = 0"
      by simp_all
    have same: "unat (bytes_written ctx2) + unat (buf_bytes ctx2)
          + unat (len - (processed + (buf_len ctx - buf_bytes ctx)))
        = unat (bytes_written ctx) + unat (buf_bytes ctx) + unat (len - processed)"
      using c le lp by (simp add: bw2 bb2 adv r2 nr)
    have wf2: "buf_bytes ctx2 \<le> buf_len ctx2"
      by (simp add: bb2)
    have fit2: "unat (bytes_written ctx2) + unat (buf_bytes ctx2)
          + unat (len - (processed + (buf_len ctx - buf_bytes ctx))) < 2 ^ 32"
      using fit by (simp only: same)
    note ih = step(3) [rule_format, OF wf2 p2 fit2, unfolded same]
    from ih show "case y of (rc, ctx', processed', e') \<Rightarrow>
        buf_bytes ctx' \<le> buf_len ctx'
      \<and> unat (bytes_written ctx') + unat (buf_bytes ctx')
          + (if rc = 0 then unat (len - processed') else 0)
          \<le> unat (bytes_written ctx) + unat (buf_bytes ctx) + unat (len - processed)" .
  qed
qed


lemmas fbw_write_loop_bound =
  fbw_write_loop_bound_aux [where y = "(rc, ctx', processed', e')" and processed = 0, simplified]
  for rc ctx' processed' e'

text \<open>As long as the sum fits \<^verbatim>\<open>size_t\<close>, the capacity check of fbw_write is the exact one.\<close>

lemma capacity_check_exact:
  fixes bw bb len avail :: size_t
  assumes "unat bw + unat bb + unat len < 2 ^ 32"
  shows "bw + bb + len > avail \<longleftrightarrow> unat bw + unat bb + unat len > unat avail"
proof -
  from assms have "unat bw + unat bb < 2 ^ LENGTH(32)" by simp
  then have "unat (bw + bb) = unat bw + unat bb"
    by (simp only: unat_add_lem [THEN iffD1])
  moreover from this assms have "unat (bw + bb) + unat len < 2 ^ LENGTH(32)" by simp
  then have "unat (bw + bb + len) = unat (bw + bb) + unat len"
    by (simp only: unat_add_lem [THEN iffD1])
  ultimately show ?thesis
    by (simp add: word_less_nat_alt)
qed

lemma fbw_write_no_space:
  assumes "unat (bytes_written ctx) + unat (buf_bytes ctx) + unat len < 2 ^ 32"
    and "unat (bytes_written ctx) + unat (buf_bytes ctx) + unat len > unat (available ctx)"
  shows "fbw_write erase_on (Some ctx) (Some data) len flush e = Some (- ENOMEM, Some ctx, e)"
  using assms by (simp add: fbw_write_def capacity_check_exact)

text \<open>
  Without that wrap-around, every return of fbw_write from a well-formed context within its
  capacity leaves a well-formed context within its capacity, whatever the status.
\<close>

lemma fbw_write_within_available:
  assumes run: "fbw_write erase_on (Some ctx) (Some data) len flush e = Some (rc, ctxp', e')"
    and wf: "buf_bytes ctx \<le> buf_len ctx"
    and inv: "within_available ctx"
    and fit: "unat (bytes_written ctx) + unat (buf_bytes ctx) + unat len < 2 ^ 32"
  shows "\<exists>ctx'. ctxp' = Some ctx' \<and> within_available ctx' \<and> buf_bytes ctx' \<le> buf_len ctx'"
proof -
  from fit have fit': "unat (bytes_written ctx) + unat (buf_bytes ctx) + unat len < 4294967296"
    by simp
  from run show ?thesis
  proof (cases rule: fbw_write_cases)
  case no_space
  with wf inv show ?thesis by simp
next
  case (loop_failed ctx1 processed)
  from loop_failed(1) fit
  have cap: "unat (bytes_written ctx) + unat (buf_bytes ctx) + unat len \<le> unat (available ctx)"
    by (simp add: capacity_check_exact)
  note fr = fbw_write_loop_frame [OF loop_failed(2)]
  from fbw_write_loop_bound [OF loop_failed(2), rule_format, OF wf fit'] loop_failed(3) cap fr
  show ?thesis
    by (simp add: loop_failed(4) within_available_def)
next
  case (staged ctx1 processed)
  from staged(1) fit
  have cap: "unat (bytes_written ctx) + unat (buf_bytes ctx) + unat len \<le> unat (available ctx)"
    by (simp add: capacity_check_exact)
  note fr = fbw_write_loop_frame [OF staged(2)]
  note st = fbw_write_loop_then_stage [OF staged(2) wf]
  from fbw_write_loop_bound [OF staged(2), rule_format, OF wf fit']
  have b: "unat (bytes_written ctx1) + unat (buf_bytes ctx1) + unat (len - processed)
      \<le> unat (bytes_written ctx) + unat (buf_bytes ctx) + unat len"
    by simp
  with fit have "unat (buf_bytes ctx1) + unat (len - processed) < 2 ^ LENGTH(32)"
    by simp
  then have bb: "unat (buf_bytes ctx1 + (len - processed)) = unat (buf_bytes ctx1) + unat (len - processed)"
    by (simp only: unat_add_lem [THEN iffD1])
  from st(1) have "(unat (buf_bytes ctx) + unat len) mod unat (buf_len ctx) < unat (buf_len ctx)"
    by (simp add: unat_gt_0)
  with st(2) fr have "buf_bytes (stage_rest ctx1 data len processed)
      \<le> buf_len (stage_rest ctx1 data len processed)"
    by (simp add: word_le_nat_alt stage_rest_simps(3))
  moreover from b bb cap fr have "within_available (stage_rest ctx1 data len processed)"
    by (simp add: within_available_def stage_rest_simps staged(3))
  ultimately show ?thesis
    by (simp add: staged(6))
next
  case (flushed ctx1 processed e1 ctx3)
  from flushed(1) fit
  have cap: "unat (bytes_written ctx) + unat (buf_bytes ctx) + unat len \<le> unat (available ctx)"
    by (simp add: capacity_check_exact)
  note fr = fbw_write_loop_frame [OF flushed(2)]
  note st = fbw_write_loop_then_stage [OF flushed(2) wf]
  let ?c2 = "stage_rest ctx1 data len processed"
  from fbw_write_loop_bound [OF flushed(2), rule_format, OF wf fit']
  have b: "unat (bytes_written ctx1) + unat (buf_bytes ctx1) + unat (len - processed)
      \<le> unat (bytes_written ctx) + unat (buf_bytes ctx) + unat len"
    by simp
  with fit have "unat (buf_bytes ctx1) + unat (len - processed) < 2 ^ LENGTH(32)"
    by simp
  then have bb: "unat (buf_bytes ctx1 + (len - processed)) = unat (buf_bytes ctx1) + unat (len - processed)"
    by (simp only: unat_add_lem [THEN iffD1])
  from st(1) have "(unat (buf_bytes ctx) + unat len) mod unat (buf_len ctx) < unat (buf_len ctx)"
    by (simp add: unat_gt_0)
  with st(2) fr have wf2: "buf_bytes ?c2 \<le> buf_len ?c2"
    by (simp add: word_le_nat_alt stage_rest_simps(3))
  from b bb cap fr have inv2: "unat (bytes_written ?c2) + unat (buf_bytes ?c2) \<le> unat (available ctx)"
    by (simp add: stage_rest_simps flushed(3))
  with fit cap have "unat (bytes_written ?c2) + unat (buf_bytes ?c2) < 2 ^ LENGTH(32)"
    using unsigned_less [of "available ctx", where 'a = nat] by simp
  then have adv: "unat (bytes_written ?c2 + buf_bytes ?c2) = unat (bytes_written ?c2) + unat (buf_bytes ?c2)"
    by (simp only: unat_add_lem [THEN iffD1])
  from flash_sync_frame [OF flushed(6)] fr
  have fr3: "buf_len ctx3 = buf_len ?c2" "available ctx3 = available ctx"
    by (simp_all add: stage_rest_simps)
  from flushed(6) have "buf_bytes ctx3 \<le> buf_len ?c2
      \<and> unat (bytes_written ctx3) + unat (buf_bytes ctx3) \<le> unat (available ctx)"
    by (cases rule: flash_sync_cases) (simp_all add: wf2 inv2 adv)
  with fr3 show ?thesis
    by (simp add: flushed(7) within_available_def)
qed
qed

subsection \<open>Termination of fbw_write\<close>

text \<open>
  From a well-formed context with a buffer of non-zero length the loop returns: either the
  pending bytes shrink, or a full buffer left by a failed commit is committed first.
\<close>

lemma fbw_write_loop_returns:
  assumes "buf_len ctx \<noteq> 0" "buf_bytes ctx \<le> buf_len ctx" "processed \<le> len"
  shows "\<exists>y. fbw_write_loop erase_on data len ctx processed e = Some y"
  using assms
proof (induction "2 * unat (len - processed) + (if buf_bytes ctx = buf_len ctx then 1 else 0 :: nat)"
    arbitrary: ctx processed e rule: less_induct)
  case less
  let ?bee = "buf_len ctx - buf_bytes ctx"
  show ?case
  proof (cases "?bee \<le> len - processed")
    case False
    then show ?thesis
      by (subst fbw_write_loop.simps) (simp add: Let_def)
  next
    case True
    let ?ctx1 = "ctx\<lparr>buf := memcpy (buf ctx) (unat (buf_bytes ctx)) data (unat processed) (unat ?bee),
                      buf_bytes := buf_len ctx\<rparr>"
    obtain rc ctx2 e2 where sync: "flash_sync erase_on ?ctx1 e = (rc, ctx2, e2)"
      by (cases "flash_sync erase_on ?ctx1 e") auto
    show ?thesis
    proof (cases "rc = 0")
      case False
      with True sync show ?thesis
        by (subst fbw_write_loop.simps) (simp add: Let_def)
    next
      case rc0: True
      note ok = flash_sync_ok(2) [OF sync [unfolded rc0]]
      from flash_sync_frame [OF sync] have bl: "buf_len ctx2 = buf_len ctx" by simp
      from less.prems(2) have nb: "unat ?bee = unat (buf_len ctx) - unat (buf_bytes ctx)"
        by (simp add: unat_sub)
      from less.prems(2) have le: "unat (buf_bytes ctx) \<le> unat (buf_len ctx)"
        by (simp add: word_le_nat_alt)
      from less.prems(3) have nr: "unat (len - processed) = unat len - unat processed"
        by (simp add: unat_sub)
      from less.prems(3) have lp: "unat processed \<le> unat len"
        by (simp add: word_le_nat_alt)
      from True nb have c: "unat (buf_len ctx) - unat (buf_bytes ctx) \<le> unat len - unat processed"
        by (simp add: word_le_nat_alt nr)
      have "unat processed + unat ?bee < 2 ^ LENGTH(32)"
        using c lp nb unsigned_less [of len, where 'a = nat] by simp
      then have np: "unat (processed + ?bee) = unat processed + (unat (buf_len ctx) - unat (buf_bytes ctx))"
        by (simp add: unat_add_lem [THEN iffD1] nb)
      with c lp have p2: "processed + ?bee \<le> len"
        by (simp add: word_le_nat_alt)
      then have r2: "unat (len - (processed + ?bee))
          = unat len - (unat processed + (unat (buf_len ctx) - unat (buf_bytes ctx)))"
        by (simp add: unat_sub np)
      have neq: "buf_bytes ctx \<noteq> buf_len ctx \<Longrightarrow> unat (buf_bytes ctx) < unat (buf_len ctx)"
        using le by (simp add: word_unat_eq_iff)
      have dec: "2 * unat (len - (processed + ?bee)) + (if buf_bytes ctx2 = buf_len ctx2 then 1 else 0)
          < 2 * unat (len - processed) + (if buf_bytes ctx = buf_len ctx then 1 else 0)"
        using c lp neq less.prems(1) by (auto simp: ok bl r2 nr)
      from less.hyps [OF dec, of e2] less.prems(1) p2
      obtain y where "fbw_write_loop erase_on data len ctx2 (processed + ?bee) e2 = Some y"
        by (auto simp: bl ok)
      with True sync rc0 show ?thesis
        by (subst fbw_write_loop.simps) (cases y, simp add: Let_def)
    qed
  qed
qed

text \<open>fbw_write returns for every well-formed context with a buffer of non-zero length.\<close>

lemma fbw_write_returns:
  assumes "buf_len ctx \<noteq> 0" "buf_bytes ctx \<le> buf_len ctx"
  shows "\<exists>r. fbw_write erase_on (Some ctx) datap len flush e = Some r"
proof (cases datap)
  case None
  then show ?thesis by (simp add: fbw_write_def)
next
  case (Some data)
  from fbw_write_loop_returns [OF assms, of 0 len erase_on data e]
  obtain y where "fbw_write_loop erase_on data len ctx 0 e = Some y"
    by auto
  with Some show ?thesis
    by (auto simp: fbw_write_def Let_def split: prod.splits)
qed

subsection \<open>The capacity check in size_t arithmetic\<close>

text \<open>
  A stream of 1024 bytes on a device that ends 4096 bytes after \<open>FLASH_BASE\<close>, with two bytes
  staged; then a write of \<open>2 ^ 32 - 2\<close> bytes. The sum in the capacity check wraps to 0, the
  check passes, and the loop commits buffer after buffer until the driver refuses the write
  at the end of the device.
\<close>

lemma overflow_eval:
  "outcome (fbw_write False (Some (staged_ctx 17 1024 None 2)) (Some (write_buf 4294967294))
             4294967294 False env0)
     = Some (- EINVAL, Some (4096, 512, 1024),
         [(65536, 512), (66048, 512), (66560, 512), (67072, 512), (67584, 512), (68096, 512),
          (68608, 512), (69120, 512), (69632, 512)], [])"
  apply (simp add: fbw_write_def sim_defs staged_ctx_def)
  apply (subst fbw_write_loop.simps, simp add: eval_defs)
  apply (subst fbw_write_loop.simps, simp add: eval_defs)
  apply (subst fbw_write_loop.simps, simp add: eval_defs)
  apply (subst fbw_write_loop.simps, simp add: eval_defs)
  apply (subst fbw_write_loop.simps, simp add: eval_defs)
  apply (subst fbw_write_loop.simps, simp add: eval_defs)
  apply (subst fbw_write_loop.simps, simp add: eval_defs)
  apply (subst fbw_write_loop.simps, simp add: eval_defs)
  apply (subst fbw_write_loop.simps, simp add: eval_defs)
  done


text \<open>\<open>fbw_init\<close> establishes invariant 1 and \<open>fbw_erase\<close> keeps it.\<close>

lemma fbw_init_within_available:
  assumes "fbw_init erase_on ctxp fdevp bufp bl off sz cb = Some (0, Some ctx')"
  shows "within_available ctx' \<and> buf_bytes ctx' \<le> buf_len ctx'"
  using assms
  by (auto simp: fbw_init_def within_available_def EFAULT_def split: option.splits if_splits)

lemma fbw_erase_within_available:
  assumes "fbw_erase ctx off e = (rc, ctx', e')"
  shows "within_available ctx' = within_available ctx
       \<and> (buf_bytes ctx' \<le> buf_len ctx') = (buf_bytes ctx \<le> buf_len ctx)"
  using assms by (auto elim!: fbw_erase_cases simp: within_available_def)

text \<open>
  C3 does not hold of the code. The exact sum \<open>bytes_written + buf_bytes + len\<close> is
  \<open>2 ^ 32 > available = 1024\<close>, yet the call does not fail with \<open>-ENOMEM\<close>: the source adds in
  \<^verbatim>\<open>size_t\<close>, the sum wraps to 0 and the check passes. The call writes nine buffers' worth of
  offsets and returns the driver's \<open>-EINVAL\<close>. (Where the sum fits \<^verbatim>\<open>size_t\<close> the check is the
  exact one: \<open>capacity_check_exact\<close>, \<open>fbw_write_no_space\<close>.)
\<close>

theorem fbw_write_capacity_check_wraps:
  "unat (available (staged_ctx 17 1024 None 2))
     < unat (bytes_written (staged_ctx 17 1024 None 2)) + unat (buf_bytes (staged_ctx 17 1024 None 2))
       + unat (4294967294 :: size_t)
   \<and> bytes_written (staged_ctx 17 1024 None 2) + buf_bytes (staged_ctx 17 1024 None 2) + 4294967294 = 0
   \<and> outcome (fbw_write False (Some (staged_ctx 17 1024 None 2)) (Some (write_buf 4294967294))
               4294967294 False env0)
     = Some (- EINVAL, Some (4096, 512, 1024),
         [(65536, 512), (66048, 512), (66560, 512), (67072, 512), (67584, 512), (68096, 512),
          (68608, 512), (69120, 512), (69632, 512)], [])
   \<and> - EINVAL \<noteq> - ENOMEM"
proof -
  have a: "unat (available (staged_ctx 17 1024 None 2))
     < unat (bytes_written (staged_ctx 17 1024 None 2)) + unat (buf_bytes (staged_ctx 17 1024 None 2))
       + unat (4294967294 :: size_t)"
    by (simp add: staged_ctx_def test_ctx_def)
  have b: "bytes_written (staged_ctx 17 1024 None 2) + buf_bytes (staged_ctx 17 1024 None 2)
      + 4294967294 = 0"
    by (simp add: staged_ctx_def test_ctx_def)
  have c: "- EINVAL \<noteq> - ENOMEM"
    by (simp add: EINVAL_def ENOMEM_def)
  from a b c overflow_eval show ?thesis by simp
qed

text \<open>
  C8 does not hold of the code, by the same wrap-around. The context is the one \<open>fbw_init\<close>
  and a write of two bytes produce, it satisfies invariant 1, and the context the
  overflowing write hands back does not: \<open>bytes_written + buf_bytes = 4608 > 1024\<close>. (Without
  the wrap-around the invariant is kept by every operation: \<open>fbw_init_within_available\<close>,
  \<open>fbw_erase_within_available\<close>, \<open>fbw_write_within_available\<close>.)
\<close>

theorem fbw_write_overflow_breaks_within_available:
  "fbw_init False (Some (test_ctx 17 0 None)) (Some (sim_flash 17)) (Some (replicate 512 0))
      BUF_LEN FLASH_BASE 1024 None = Some (0, Some (test_ctx 17 1024 None))
   \<and> fbw_write False (Some (test_ctx 17 1024 None)) (Some (write_buf 2)) 2 False env0
      = Some (0, Some (staged_ctx 17 1024 None 2), env0)
   \<and> within_available (staged_ctx 17 1024 None 2)
   \<and> invariant_after (fbw_write False (Some (staged_ctx 17 1024 None 2))
        (Some (write_buf 4294967294)) 4294967294 False env0) = Some False"
proof -
  have a: "fbw_init False (Some (test_ctx 17 0 None)) (Some (sim_flash 17)) (Some (replicate 512 0))
      BUF_LEN FLASH_BASE 1024 None = Some (0, Some (test_ctx 17 1024 None))"
    by (simp add: fbw_init_def sim_defs)
  have b: "fbw_write False (Some (test_ctx 17 1024 None)) (Some (write_buf 2)) 2 False env0
      = Some (0, Some (staged_ctx 17 1024 None 2), env0)"
    apply (simp add: fbw_write_def sim_defs)
    apply (subst fbw_write_loop.simps)
    apply (simp add: eval_defs)
    done
  have c: "within_available (staged_ctx 17 1024 None 2)"
    by (simp add: within_available_def staged_ctx_def test_ctx_def)
  from overflow_eval obtain rc ctx' e'
    where run: "fbw_write False (Some (staged_ctx 17 1024 None 2)) (Some (write_buf 4294967294))
                  4294967294 False env0 = Some (rc, Some ctx', e')"
      and cnt: "counters ctx' = (4096, 512, 1024)"
    by (auto simp: outcome_def)
  from cnt have "\<not> within_available ctx'"
    by (simp add: within_available_def counters_def)
  with run have d: "invariant_after (fbw_write False (Some (staged_ctx 17 1024 None 2))
        (Some (write_buf 4294967294)) 4294967294 False env0) = Some False"
    by (simp add: invariant_after_def)
  from a b c d show ?thesis by simp
qed

subsection \<open>fbw_init\<close>

lemma layout_scan_small_page:
  "\<exists>l \<in> set ls. pages_size l < bl \<Longrightarrow> layout_scan bl t ls = None"
  by (induction ls arbitrary: t) (auto simp: Let_def)

lemma layout_scan_total:
  "\<forall>l \<in> set ls. bl \<le> pages_size l \<Longrightarrow>
   layout_scan bl t ls = Some (t + sum_list (map (\<lambda>l. pages_count l * pages_size l) ls))"
  by (induction ls arbitrary: t) (auto simp: Let_def not_less add.assoc)

text \<open>
  The total the layout loop accumulates is the exact device size whenever that size fits
  \<^verbatim>\<open>size_t\<close>.
\<close>

lemma unat_sum_list_exact:
  fixes f :: "'a \<Rightarrow> size_t"
  assumes "sum_list (map (\<lambda>x. unat (f x)) xs) < 2 ^ 32"
  shows "unat (sum_list (map f xs)) = sum_list (map (\<lambda>x. unat (f x)) xs)"
  using assms
proof (induction xs)
  case Nil
  then show ?case by simp
next
  case (Cons x xs)
  then have ih: "unat (sum_list (map f xs)) = sum_list (map (\<lambda>x. unat (f x)) xs)"
    by simp
  from Cons.prems have "unat (f x) + unat (sum_list (map f xs)) < 2 ^ LENGTH(32)"
    by (simp add: ih)
  then have "unat (f x + sum_list (map f xs)) = unat (f x) + unat (sum_list (map f xs))"
    by (simp only: unat_add_lem [THEN iffD1])
  with ih show ?case by simp
qed

lemma total_device_size_exact:
  assumes "sum_list (map (\<lambda>l. unat (pages_count l) * unat (pages_size l)) (page_layout d)) < 2 ^ 32"
  shows "unat (total_device_size d)
       = sum_list (map (\<lambda>l. unat (pages_count l) * unat (pages_size l)) (page_layout d))"
proof -
  have each: "unat (pages_count l * pages_size l) = unat (pages_count l) * unat (pages_size l)"
    if "l \<in> set (page_layout d)" for l
  proof -
    from that have "unat (pages_count l) * unat (pages_size l)
        \<le> sum_list (map (\<lambda>l. unat (pages_count l) * unat (pages_size l)) (page_layout d))"
      by (simp add: member_le_sum_list)
    with assms have "unat (pages_count l) * unat (pages_size l) < 2 ^ LENGTH(32)"
      by simp
    then show ?thesis
      by (simp only: unat_mult_lem [THEN iffD1])
  qed
  then have eq: "map (\<lambda>l. unat (pages_count l * pages_size l)) (page_layout d)
      = map (\<lambda>l. unat (pages_count l) * unat (pages_size l)) (page_layout d)"
    by simp
  from assms have "sum_list (map (\<lambda>l. unat (pages_count l * pages_size l)) (page_layout d)) < 2 ^ 32"
    by (simp only: eq)
  from unat_sum_list_exact [of "\<lambda>l. pages_count l * pages_size l", OF this]
  show ?thesis
    by (simp only: total_device_size_def eq)
qed

text \<open>
  C9. Every return of \<open>fbw_init\<close> with a non-zero status (a null reference, a buffer larger
  than some region's pages, an offset that is not a multiple of the write block size, or
  \<open>offset + size\<close> beyond the device) hands the context back exactly as it was passed in; the
  status is \<open>-EFAULT\<close> in each of these cases.
\<close>

theorem fbw_init_error_leaves_ctx:
  assumes "fbw_init erase_on ctxp fdevp bufp bl off sz cb = Some (rc, ctxp')"
    and "rc \<noteq> 0"
  shows "ctxp' = ctxp \<and> rc = - EFAULT"
  using assms by (auto simp: fbw_init_def split: option.splits if_splits)

theorem fbw_init_error_leaves_ctx_witness:
  "fbw_init True (Some (test_ctx 256 983040 None)) (Some (sim_flash 256)) (Some (replicate 512 0))
     65536 0 0 (Some fbw_callback) = Some (- EFAULT, Some (test_ctx 256 983040 None))
   \<and> - EFAULT \<noteq> (0 :: c_int)"
proof -
  have h1: "fbw_init True (Some (test_ctx 256 983040 None)) (Some (sim_flash 256))
      (Some (replicate 512 0)) 65536 0 0 (Some fbw_callback)
    = Some (- EFAULT, Some (test_ctx 256 983040 None))"
    by (simp add: fbw_init_def sim_flash_def SIM_PAGE_SIZE_def)
  have h2: "- EFAULT \<noteq> (0 :: c_int)"
    by (simp add: EFAULT_def)
  from fbw_init_error_leaves_ctx [OF h1 h2] h1 h2 show ?thesis
    by simp
qed

text \<open>
  C4. With all three references present: if some region of the page layout has pages
  strictly smaller than \<open>buf_len\<close>, \<open>fbw_init\<close> returns \<open>-EFAULT\<close> (and leaves the context alone);
  if \<open>buf_len\<close> is at most every region's page size, the bounds check
  \<open>offset + size > total_size\<close> of the source does not fire and the offset is a multiple of
  the (non-zero) write block size, \<open>fbw_init\<close> returns 0 with the context initialised. The
  total in the bounds check is the exact device size whenever that fits \<^verbatim>\<open>size_t\<close>
  (\<open>total_device_size_exact\<close>).
\<close>

theorem fbw_init_page_size_check:
  "((\<exists>l \<in> set (page_layout d). pages_size l < bl) \<longrightarrow>
      fbw_init erase_on (Some ctx) (Some d) (Some b) bl off sz cb = Some (- EFAULT, Some ctx))
   \<and> ((\<forall>l \<in> set (page_layout d). bl \<le> pages_size l)
        \<and> \<not> off + sz > total_device_size d
        \<and> write_block_size d \<noteq> 0 \<and> off mod write_block_size d = 0 \<longrightarrow>
      fbw_init erase_on (Some ctx) (Some d) (Some b) bl off sz cb =
        Some (0, Some (ctx\<lparr>fdev := d, buf := b, buf_len := bl, bytes_written := 0, buf_bytes := 0,
                 offset := off,
                 available := (if sz = 0 then total_device_size d - off else sz),
                 callback := cb,
                 last_erased_page_start_offset :=
                   (if erase_on then - 1 else last_erased_page_start_offset ctx)\<rparr>)))"
  by (auto simp: fbw_init_def layout_scan_small_page layout_scan_total total_device_size_def)

theorem fbw_init_page_size_check_witness:
  "fbw_init True (Some (test_ctx 256 0 None)) (Some (sim_flash 256)) (Some (replicate 512 0))
      65536 FLASH_BASE 0 None = Some (- EFAULT, Some (test_ctx 256 0 None))
   \<and> fbw_init True (Some (test_ctx 256 0 None)) (Some (sim_flash 256)) (Some (replicate 512 0))
      BUF_LEN FLASH_BASE 0 (Some fbw_callback)
      = Some (0, Some (test_ctx 256 983040 (Some fbw_callback)))"
proof -
  have h1: "\<exists>l \<in> set (page_layout (sim_flash 256)). pages_size l < 65536"
    by (simp add: sim_flash_def SIM_PAGE_SIZE_def)
  have h2: "(\<forall>l \<in> set (page_layout (sim_flash 256)). BUF_LEN \<le> pages_size l)
        \<and> \<not> FLASH_BASE + 0 > total_device_size (sim_flash 256)
        \<and> write_block_size (sim_flash 256) \<noteq> 0
        \<and> FLASH_BASE mod write_block_size (sim_flash 256) = 0"
    by (simp add: sim_flash_def SIM_PAGE_SIZE_def BUF_LEN_def FLASH_BASE_def total_device_size_def)
  have t: "total_device_size (sim_flash 256) = 1048576"
    by (simp add: sim_flash_def SIM_PAGE_SIZE_def total_device_size_def)
  note a = fbw_init_page_size_check [THEN conjunct1, rule_format, OF h1,
      of True "test_ctx 256 0 None" "replicate 512 0" FLASH_BASE 0 None]
  note b = fbw_init_page_size_check [THEN conjunct2, rule_format, OF h2,
      of True "test_ctx 256 0 None" "replicate 512 0" "Some fbw_callback"]
  from a b show ?thesis
    by (simp add: t test_ctx_def BUF_LEN_def FLASH_BASE_def)
qed

end
